theory Spec2Isabelle
  imports Main "HOL-Library.Sublist" "HOL-Library.AList" "HOL-Library.Char_ord"
    "HOL-Library.List_Lexorder" "HOL-Library.Multiset"
begin

text \<open>
  A model of \<open>fetch-cloudinary-images.js\<close>, the script that lists the folders of a
  Cloudinary account, fetches the assets of each folder and of the root page by page,
  classifies them, groups them into albums and writes \<open>images.json\<close>. The file holds two
  variants of the script; the model follows the second, which knows videos and live
  photos.
\<close>

section \<open>JavaScript values and strings\<close>

text \<open>
  The fields of a record returned by the provider are the values of a JSON document:
  null, booleans, numbers, strings, arrays and plain objects. A field that is missing
  reads as \<open>undefined\<close>.
  Strings are lists of characters; the needles and replacements of the script are ASCII,
  and an ASCII needle matches at the same places in a UTF-8 and in a UTF-16 text.
\<close>

datatype jsval =
    JUndefined
  | JNull
  | JBool bool
  | JNum int
  | JStr string
  | JArr "jsval list"
  | JObj "(string \<times> jsval) list"

text \<open>
  What the script can throw: a \<open>TypeError\<close> for a method call on a value that
  has no such method, and whatever a provider call is rejected with, of which only the
  \<open>message\<close> property is read (\<open>None\<close> when the thrown value is falsy or has
  no message).
\<close>

datatype js_error = TypeError | Rejected "string option"

text \<open>\<open>s.indexOf(pat)\<close>, with \<open>None\<close> for \<open>-1\<close>.\<close>

fun indexOf :: "string \<Rightarrow> string \<Rightarrow> nat option" where
  "indexOf [] pat = (if pat = [] then Some 0 else None)"
| "indexOf (c # cs) pat =
     (if prefix pat (c # cs) then Some 0 else map_option Suc (indexOf cs pat))"

text \<open>\<open>String.prototype.includes\<close>.\<close>

definition str_includes :: "string \<Rightarrow> string \<Rightarrow> bool" where
  "str_includes s pat = (indexOf s pat \<noteq> None)"

text \<open>
  \<open>String.prototype.replace\<close> with a string pattern: the first occurrence only. The
  replacement is inserted as it is when it holds no dollar sign, which is the case of
  both replacements of the script.
\<close>

definition str_replace :: "string \<Rightarrow> string \<Rightarrow> string \<Rightarrow> string" where
  "str_replace s pat rep =
     (case indexOf s pat of
        None \<Rightarrow> s
      | Some i \<Rightarrow> take i s @ rep @ drop (i + length pat) s)"

text \<open>
  The method calls \<open>v.includes(pat)\<close> and \<open>v.replace(pat, rep)\<close> on a value. Strings
  have both methods. An array has \<open>includes\<close>, which looks for an element equal to its
  argument, and no \<open>replace\<close>. The other values have neither: \<open>undefined\<close> and \<open>null\<close>
  have no properties, a boolean and a number inherit neither method, and a property of an
  object of a JSON document is never a function.
\<close>

definition call_includes :: "jsval \<Rightarrow> string \<Rightarrow> js_error + bool" where
  "call_includes v pat =
     (case v of
        JStr s \<Rightarrow> Inr (str_includes s pat)
      | JArr xs \<Rightarrow> Inr (JStr pat \<in> set xs)
      | _ \<Rightarrow> Inl TypeError)"

definition call_replace :: "jsval \<Rightarrow> string \<Rightarrow> string \<Rightarrow> js_error + string" where
  "call_replace v pat rep =
     (case v of JStr s \<Rightarrow> Inr (str_replace s pat rep) | _ \<Rightarrow> Inl TypeError)"

section \<open>The asset classifier\<close>

record resource =
  secure_url :: jsval
  resource_type :: jsval
  format :: jsval

text \<open>
  The object literal returned by \<open>convertToBrowserFormat\<close>. The property
  \<open>isHEICLivePhoto\<close> is written by the first branch only: \<open>None\<close> is its absence.
\<close>

record item =
  url :: jsval
  originalUrl :: jsval
  isVideo :: bool
  isHEICLivePhoto :: "bool option"

definition isHEICVideo :: "resource \<Rightarrow> bool" where
  "isHEICVideo r = (format r = JStr ''heic'' \<and> resource_type r = JStr ''video'')"

definition convertToBrowserFormat :: "resource \<Rightarrow> js_error + item" where
  "convertToBrowserFormat r =
     (let u = secure_url r; resourceType = resource_type r; fmt = format r in
      if isHEICVideo r then
        Inr \<lparr>url = u, originalUrl = u, isVideo = True, isHEICLivePhoto = Some True\<rparr>
      else if resourceType = JStr ''video'' then
        (case call_replace u ''/video/upload/'' ''/video/upload/so_0,f_jpg,q_auto/'' of
           Inl e \<Rightarrow> Inl e
         | Inr v \<Rightarrow>
             Inr \<lparr>url = JStr v, originalUrl = u, isVideo = True, isHEICLivePhoto = None\<rparr>)
      else if fmt = JStr ''heic'' \<or> fmt = JStr ''heif'' then
        (case call_replace u ''/image/upload/'' ''/image/upload/f_auto,q_auto/'' of
           Inl e \<Rightarrow> Inl e
         | Inr v \<Rightarrow>
             Inr \<lparr>url = JStr v, originalUrl = u, isVideo = False, isHEICLivePhoto = None\<rparr>)
      else
        (case call_includes u ''/image/upload/'' of
           Inl e \<Rightarrow> Inl e
         | Inr True \<Rightarrow>
             (case call_replace u ''/image/upload/'' ''/image/upload/f_auto,q_auto/'' of
                Inl e \<Rightarrow> Inl e
              | Inr v \<Rightarrow>
                  Inr \<lparr>url = JStr v, originalUrl = u, isVideo = False,
                    isHEICLivePhoto = None\<rparr>)
         | Inr False \<Rightarrow>
             Inr \<lparr>url = u, originalUrl = u, isVideo = False, isHEICLivePhoto = None\<rparr>))"

section \<open>The provider and the host\<close>

text \<open>
  The script talks to the provider through two calls: \<open>cloudinary.api.root_folders()\<close>
  and \<open>cloudinary.search. ... .execute()\<close>. Both are taken as functions of the
  request, fixed for the length of a run; a rejected promise is an \<open>Inl\<close>. A
  property that the script reads under \<open>|| []\<close> is optional.
\<close>

record folder =
  name :: string

record folders_result =
  folders :: "folder list option"

record search_request =
  expression :: string
  sort_by :: "string \<times> string"
  max_results :: nat
  with_field :: "string list"
  from_cursor :: "string option"

record search_result =
  resources :: "resource list option"
  next_cursor :: "string option"

text \<open>
  The host supplies the rest: the environment variable read into \<open>config.cloud_name\<close>,
  the clock behind \<open>new Date().toISOString()\<close>, and the collation behind
  \<open>String.prototype.localeCompare\<close>, which depends on the host's locale data and is not
  fixed by the script.
\<close>

record world =
  CLOUDINARY_CLOUD_NAME :: "string option"
  clock :: string
  localeCompare :: "string \<Rightarrow> string \<Rightarrow> int"
  root_folders :: "js_error + folders_result"
  execute :: "search_request \<Rightarrow> js_error + search_result"

text \<open>\<open>process.env.CLOUDINARY_CLOUD_NAME || 'ddnebrkpu'\<close>: an empty string is falsy.\<close>

definition cloud_name :: "world \<Rightarrow> string" where
  "cloud_name W =
     (case CLOUDINARY_CLOUD_NAME W of
        None \<Rightarrow> ''ddnebrkpu''
      | Some s \<Rightarrow> if s = [] then ''ddnebrkpu'' else s)"

section \<open>Plain objects used as dictionaries\<close>

text \<open>
  An object created by \<open>{}\<close> is the list of its own enumerable properties in the order of
  their creation. Assignment to an existing key keeps its place. Assignment of an array to
  the key \<open>__proto__\<close> runs the setter inherited from \<open>Object.prototype\<close>: it replaces the
  prototype and creates no own property.
\<close>

definition obj_set :: "(string \<times> 'v) list \<Rightarrow> string \<Rightarrow> 'v \<Rightarrow> (string \<times> 'v) list" where
  "obj_set obj k v = (if k = ''__proto__'' then obj else AList.update k v obj)"

definition digit :: "char \<Rightarrow> bool" where
  "digit c = (CHR ''0'' \<le> c \<and> c \<le> CHR ''9'')"

definition decimal :: "string \<Rightarrow> nat" where
  "decimal s = foldl (\<lambda>n c. 10 * n + (of_char c - 48)) 0 s"

text \<open>An array index is the canonical decimal form of an integer below \<open>2^32 - 1\<close>.\<close>

definition is_array_index :: "string \<Rightarrow> bool" where
  "is_array_index s =
     (s \<noteq> [] \<and> list_all digit s \<and> (s = ''0'' \<or> hd s \<noteq> CHR ''0'') \<and> decimal s < 2 ^ 32 - 1)"

text \<open>\<open>Object.entries\<close>: array indices first, ascending, then the other keys as created.\<close>

definition object_entries :: "(string \<times> 'v) list \<Rightarrow> (string \<times> 'v) list" where
  "object_entries obj =
     sort_key (\<lambda>kv. decimal (fst kv)) (filter (\<lambda>kv. is_array_index (fst kv)) obj)
       @ filter (\<lambda>kv. \<not> is_array_index (fst kv)) obj"

text \<open>\<open>xs[i]\<close> on an array: \<open>undefined\<close>, here \<open>None\<close>, outside its bounds.\<close>

definition js_nth :: "'a list \<Rightarrow> int \<Rightarrow> 'a option" where
  "js_nth xs i = (if 0 \<le> i \<and> i < int (length xs) then Some (xs ! nat i) else None)"

text \<open>
  \<open>Array.prototype.sort\<close> with a comparator: a stable sort. The order it yields is fixed by
  the language only for a consistent comparator.
\<close>

fun insert_sorted :: "('a \<Rightarrow> 'a \<Rightarrow> int) \<Rightarrow> 'a \<Rightarrow> 'a list \<Rightarrow> 'a list" where
  "insert_sorted cmp x [] = [x]"
| "insert_sorted cmp x (y # ys) =
     (if cmp x y \<le> 0 then x # y # ys else y # insert_sorted cmp x ys)"

definition js_sort :: "('a \<Rightarrow> 'a \<Rightarrow> int) \<Rightarrow> 'a list \<Rightarrow> 'a list" where
  "js_sort cmp xs = foldr (insert_sorted cmp) xs []"

section \<open>Albums\<close>

definition albumCovers :: "(string \<times> int) list" where
  "albumCovers =
     [(''2020, SOL November'', 1),
      (''2021, SOL April'', 5),
      (''2021, SOL November'', 2),
      (''2022, SOL April'', 2),
      (''2022, SOL November'', 0),
      (''2023, SOL April'', 1),
      (''2023, SOL October'', 4),
      (''2024, SOL April'', 6),
      (''2024, SOL October'', 1),
      (''2025, SOL April'', 11),
      (''2025, SOL November'', 35)]"

text \<open>\<open>folderName.split(/[-_]/)\<close>.\<close>

fun split_at :: "(char \<Rightarrow> bool) \<Rightarrow> string \<Rightarrow> string list" where
  "split_at sep [] = [[]]"
| "split_at sep (c # cs) =
     (if sep c then [] # split_at sep cs
      else (case split_at sep cs of [] \<Rightarrow> [[c]] | w # ws \<Rightarrow> (c # w) # ws))"

text \<open>
  \<open>toUpperCase\<close> on one character, restricted to ASCII: the letters \<open>a\<close> to \<open>z\<close> are
  capitalised and every other character is kept, whereas the method of the language also
  capitalises the letters outside ASCII. The titles of the model are those of the script
  for folder names whose words start with an ASCII character.
\<close>

definition toUpperCase :: "char \<Rightarrow> char" where
  "toUpperCase c =
     (if CHR ''a'' \<le> c \<and> c \<le> CHR ''z'' then char_of (of_char c - (32 :: nat)) else c)"

text \<open>\<open>word.charAt(0).toUpperCase() + word.slice(1)\<close>.\<close>

definition capitalize :: "string \<Rightarrow> string" where
  "capitalize word = (case word of [] \<Rightarrow> [] | c # cs \<Rightarrow> toUpperCase c # cs)"

fun join :: "string \<Rightarrow> string list \<Rightarrow> string" where
  "join sep [] = []"
| "join sep [w] = w"
| "join sep (w # v # ws) = w @ sep @ join sep (v # ws)"

definition formatFolderName :: "string \<Rightarrow> string" where
  "formatFolderName folderName =
     join '' '' (map capitalize (split_at (\<lambda>c. c = CHR ''-'' \<or> c = CHR ''_'') folderName))"

record album =
  title :: string
  folder :: string
  coverImage :: "item option"
  images :: "item list"

text \<open>
  The arrow function mapped over \<open>Object.entries(albumsByFolder)\<close>, with the table of
  covers as a parameter. \<open>albumCovers[folderName] || 0\<close> is \<open>0\<close> for a key the table
  lacks; a member inherited from \<open>Object.prototype\<close> is no index of the array, so that
  \<open>images[coverIndex]\<close> is undefined as it is for an index out of bounds.
\<close>

definition toAlbum :: "(string \<rightharpoonup> int) \<Rightarrow> string \<times> item list \<Rightarrow> album" where
  "toAlbum covers entry =
     (case entry of (folderName, imgs) \<Rightarrow>
        let coverIndex = (case covers folderName of None \<Rightarrow> 0 | Some i \<Rightarrow> i);
            cover = (case js_nth imgs coverIndex of Some it \<Rightarrow> Some it | None \<Rightarrow> js_nth imgs 0)
        in \<lparr>title = formatFolderName folderName, folder = folderName, coverImage = cover,
             images = imgs\<rparr>)"

section \<open>The run\<close>

record document =
  cloudName :: string
  lastUpdated :: string
  totalImages :: nat
  carouselImages :: "item list"
  albums :: "album list"

text \<open>
  A paginated fetch ends only when the provider sends a page without a cursor. Each
  \<open>do ... while\<close> loop is given a bound on its iterations; \<open>Pending\<close> is a loop that has
  not ended within the bound.
\<close>

datatype 'a run = Pending | Threw js_error | Returned 'a

text \<open>The request built by the chain of calls before \<open>execute()\<close>.\<close>

definition search :: "string \<Rightarrow> string option \<Rightarrow> search_request" where
  "search expr nextCursor =
     \<lparr>expression = expr, sort_by = (''created_at'', ''desc''), max_results = 500,
      with_field = [''context'', ''metadata''], from_cursor = nextCursor\<rparr>"

text \<open>The template literal \<open>asset_folder="${folder.name}"\<close>.\<close>

definition folder_expression :: "string \<Rightarrow> string" where
  "folder_expression folderName = ''asset_folder='' @ [CHR 0x22] @ folderName @ [CHR 0x22]"

text \<open>The literal \<open>asset_folder=""\<close> of the root loop.\<close>

definition root_expression :: string where
  "root_expression = ''asset_folder='' @ [CHR 0x22, CHR 0x22]"

text \<open>\<open>resources.map(r => convertToBrowserFormat(r))\<close>: the first exception ends it.\<close>

fun map_convert :: "resource list \<Rightarrow> js_error + item list" where
  "map_convert [] = Inr []"
| "map_convert (r # rs) =
     (case convertToBrowserFormat r of
        Inl e \<Rightarrow> Inl e
      | Inr it \<Rightarrow> (case map_convert rs of Inl e \<Rightarrow> Inl e | Inr its \<Rightarrow> Inr (it # its)))"

text \<open>\<open>while (nextCursor)\<close>: a missing cursor and the empty string are falsy.\<close>

definition truthy :: "string option \<Rightarrow> bool" where
  "truthy c = (case c of None \<Rightarrow> False | Some s \<Rightarrow> s \<noteq> [])"

text \<open>
  The \<open>do ... while\<close> loop, written twice in the script (for a folder and for the root).
  Its state is \<open>nextCursor\<close>, the folder's array and \<open>allImages\<close>; the list of the requests
  issued so far is carried along.
\<close>

fun fetchPages ::
  "nat \<Rightarrow> world \<Rightarrow> string \<Rightarrow> string option \<Rightarrow> item list \<Rightarrow> item list \<Rightarrow> search_request list
    \<Rightarrow> (item list \<times> item list) run \<times> search_request list" where
  "fetchPages 0 W expr nextCursor folderImages allImages reqs = (Pending, reqs)"
| "fetchPages (Suc n) W expr nextCursor folderImages allImages reqs =
     (case execute W (search expr nextCursor) of
        Inl e \<Rightarrow> (Threw e, reqs @ [search expr nextCursor])
      | Inr result \<Rightarrow>
          (case map_convert (case resources result of None \<Rightarrow> [] | Some rs \<Rightarrow> rs) of
             Inl e \<Rightarrow> (Threw e, reqs @ [search expr nextCursor])
           | Inr convertedItems \<Rightarrow>
               if truthy (next_cursor result)
               then fetchPages n W expr (next_cursor result) (folderImages @ convertedItems)
                      (allImages @ convertedItems) (reqs @ [search expr nextCursor])
               else (Returned (folderImages @ convertedItems, allImages @ convertedItems),
                      reqs @ [search expr nextCursor])))"

text \<open>The \<open>for (const folder of folders)\<close> loop.\<close>

fun forFolders ::
  "nat \<Rightarrow> world \<Rightarrow> folder list \<Rightarrow> (string \<times> item list) list \<Rightarrow> item list \<Rightarrow> search_request list
    \<Rightarrow> ((string \<times> item list) list \<times> item list) run \<times> search_request list" where
  "forFolders n W [] albumsByFolder allImages reqs = (Returned (albumsByFolder, allImages), reqs)"
| "forFolders n W (f # fs) albumsByFolder allImages reqs =
     (case fetchPages n W (folder_expression (name f)) None [] allImages reqs of
        (Pending, reqs') \<Rightarrow> (Pending, reqs')
      | (Threw e, reqs') \<Rightarrow> (Threw e, reqs')
      | (Returned (folderImages, allImages'), reqs') \<Rightarrow>
          forFolders n W fs
            (if length folderImages > 0 then obj_set albumsByFolder (name f) folderImages
             else albumsByFolder)
            allImages' reqs')"

text \<open>The body of the \<open>try\<close> block up to the object that is written.\<close>

definition tryBlock :: "nat \<Rightarrow> world \<Rightarrow> document run \<times> search_request list" where
  "tryBlock n W =
     (case root_folders W of
        Inl e \<Rightarrow> (Threw e, [])
      | Inr foldersResult \<Rightarrow>
          (case forFolders n W (case folders foldersResult of None \<Rightarrow> [] | Some fs \<Rightarrow> fs)
                  [] [] [] of
             (Pending, reqs) \<Rightarrow> (Pending, reqs)
           | (Threw e, reqs) \<Rightarrow> (Threw e, reqs)
           | (Returned (albumsByFolder, allImages), reqs) \<Rightarrow>
               (case fetchPages n W root_expression None [] allImages reqs of
                  (Pending, reqs') \<Rightarrow> (Pending, reqs')
                | (Threw e, reqs') \<Rightarrow> (Threw e, reqs')
                | (Returned (rootImages, allImages'), reqs') \<Rightarrow>
                    (Returned
                       \<lparr>cloudName = cloud_name W, lastUpdated = clock W,
                        totalImages = length allImages', carouselImages = allImages',
                        albums =
                          js_sort (\<lambda>a b. localeCompare W (title b) (title a))
                            (map (toAlbum (map_of albumCovers))
                               (object_entries albumsByFolder))\<rparr>,
                     reqs'))))"

text \<open>
  The \<open>catch\<close> block: \<open>error && error.message && error.message.includes('api_key')\<close>. The
  message of the \<open>TypeError\<close> of a method call on a value without that method names the
  value and the method, not the key.
\<close>

definition mentions_api_key :: "js_error \<Rightarrow> bool" where
  "mentions_api_key e =
     (case e of
        TypeError \<Rightarrow> False
      | Rejected None \<Rightarrow> False
      | Rejected (Some m) \<Rightarrow> m \<noteq> [] \<and> str_includes m ''api_key'')"

datatype console_line = ErrorFetching js_error | CredentialsHelp

text \<open>
  What a run leaves: the exit status, the object handed to \<open>JSON.stringify\<close> and written
  to \<open>images.json\<close> (\<open>None\<close> when the file is not written) and the lines on the error
  stream. The progress lines on the output stream are left out.
\<close>

record process =
  exit_code :: nat
  images_json :: "document option"
  console_error :: "console_line list"

definition fetchAllImages :: "nat \<Rightarrow> world \<Rightarrow> process option \<times> search_request list" where
  "fetchAllImages n W =
     (case tryBlock n W of
        (Pending, reqs) \<Rightarrow> (None, reqs)
      | (Returned out, reqs) \<Rightarrow>
          (Some \<lparr>exit_code = 0, images_json = Some out, console_error = []\<rparr>, reqs)
      | (Threw e, reqs) \<Rightarrow>
          (Some \<lparr>exit_code = 1, images_json = None,
             console_error =
               ErrorFetching e # (if mentions_api_key e then [CredentialsHelp] else [])\<rparr>,
           reqs))"

text \<open>
  The fetcher of one folder (or of the root): the loop started from an empty array and no
  cursor.
\<close>

definition fetchFolder :: "nat \<Rightarrow> world \<Rightarrow> string \<Rightarrow> item list run" where
  "fetchFolder n W expr =
     (case fst (fetchPages n W expr None [] [] []) of
        Pending \<Rightarrow> Pending
      | Threw e \<Rightarrow> Threw e
      | Returned (folderImages, allImages) \<Rightarrow> Returned folderImages)"

text \<open>
  A provider that answers the requests of one fetch with the given pages, in order: each
  page but the last carries a cursor, a string that is not empty, under which the provider
  serves the next page, and the last page carries none.
\<close>

fun serves :: "world \<Rightarrow> string \<Rightarrow> string option \<Rightarrow> search_result list \<Rightarrow> bool" where
  "serves W expr c [] = False"
| "serves W expr c [p] = (execute W (search expr c) = Inr p \<and> next_cursor p = None)"
| "serves W expr c (p # q # ps) =
     (execute W (search expr c) = Inr p
      \<and> (case next_cursor p of
           None \<Rightarrow> False
         | Some k \<Rightarrow> k \<noteq> [] \<and> serves W expr (Some k) (q # ps)))"

section \<open>Sample inputs\<close>

text \<open>Assets of each kind, and some with fields that are missing or are no strings.\<close>

definition live_photo :: resource where
  "live_photo = \<lparr>secure_url = JStr ''https://res.cloudinary.com/demo/video/upload/v1/live.heic'',
     resource_type = JStr ''video'', format = JStr ''heic''\<rparr>"

definition clip :: resource where
  "clip = \<lparr>secure_url = JStr ''https://res.cloudinary.com/demo/video/upload/v1/clip.mp4'',
     resource_type = JStr ''video'', format = JStr ''mp4''\<rparr>"

definition photo :: resource where
  "photo = \<lparr>secure_url = JStr ''https://res.cloudinary.com/demo/image/upload/v1/a.jpg'',
     resource_type = JStr ''image'', format = JStr ''jpg''\<rparr>"

definition private_heic :: resource where
  "private_heic = \<lparr>secure_url = JStr ''https://res.cloudinary.com/demo/image/private/v1/a.heic'',
     resource_type = JStr ''image'', format = JStr ''heic''\<rparr>"

definition no_url :: resource where
  "no_url = \<lparr>secure_url = JUndefined, resource_type = JStr ''image'', format = JStr ''jpg''\<rparr>"

definition only_url :: resource where
  "only_url = \<lparr>secure_url = JStr ''https://res.cloudinary.com/demo/raw/upload/v1/a.bin'',
     resource_type = JUndefined, format = JUndefined\<rparr>"

definition clip_no_url :: resource where
  "clip_no_url = \<lparr>secure_url = JUndefined, resource_type = JStr ''video'', format = JStr ''mp4''\<rparr>"

definition url_array :: resource where
  "url_array = \<lparr>secure_url = JArr [], resource_type = JStr ''image'', format = JStr ''jpg''\<rparr>"

text \<open>The items they are classified into.\<close>

definition live_photo_item :: item where
  "live_photo_item =
     \<lparr>url = JStr ''https://res.cloudinary.com/demo/video/upload/v1/live.heic'',
      originalUrl = JStr ''https://res.cloudinary.com/demo/video/upload/v1/live.heic'',
      isVideo = True, isHEICLivePhoto = Some True\<rparr>"

definition clip_item :: item where
  "clip_item =
     \<lparr>url = JStr ''https://res.cloudinary.com/demo/video/upload/so_0,f_jpg,q_auto/v1/clip.mp4'',
      originalUrl = JStr ''https://res.cloudinary.com/demo/video/upload/v1/clip.mp4'',
      isVideo = True, isHEICLivePhoto = None\<rparr>"

definition photo_item :: item where
  "photo_item =
     \<lparr>url = JStr ''https://res.cloudinary.com/demo/image/upload/f_auto,q_auto/v1/a.jpg'',
      originalUrl = JStr ''https://res.cloudinary.com/demo/image/upload/v1/a.jpg'',
      isVideo = False, isHEICLivePhoto = None\<rparr>"

definition private_heic_item :: item where
  "private_heic_item =
     \<lparr>url = JStr ''https://res.cloudinary.com/demo/image/private/v1/a.heic'',
      originalUrl = JStr ''https://res.cloudinary.com/demo/image/private/v1/a.heic'',
      isVideo = False, isHEICLivePhoto = None\<rparr>"

definition only_url_item :: item where
  "only_url_item =
     \<lparr>url = JStr ''https://res.cloudinary.com/demo/raw/upload/v1/a.bin'',
      originalUrl = JStr ''https://res.cloudinary.com/demo/raw/upload/v1/a.bin'',
      isVideo = False, isHEICLivePhoto = None\<rparr>"

text \<open>Ordinal comparison of strings, as a comparator.\<close>

definition ordinal_compare :: "string \<Rightarrow> string \<Rightarrow> int" where
  "ordinal_compare a b = (if a < b then - 1 else if b < a then 1 else 0)"

text \<open>
  A comparator that orders letters alphabetically whatever their case, as the collations
  of the Unicode locale data do at their first level: \<open>a\<close> sorts before \<open>Z\<close>, which
  ordinal comparison puts first.
\<close>

definition fold_case :: "char \<Rightarrow> char" where
  "fold_case c =
     (if CHR ''A'' \<le> c \<and> c \<le> CHR ''Z'' then char_of (of_char c + (32 :: nat)) else c)"

definition alphabetic_compare :: "string \<Rightarrow> string \<Rightarrow> int" where
  "alphabetic_compare a b = ordinal_compare (map fold_case a) (map fold_case b)"

text \<open>
  A provider with four folders, one of them empty and one served in two pages, and one
  asset outside the folders.
\<close>

definition two_pages :: "search_result list" where
  "two_pages =
     [\<lparr>resources = Some [clip, photo], next_cursor = Some ''c1''\<rparr>,
      \<lparr>resources = Some [live_photo], next_cursor = None\<rparr>]"

definition site_execute :: "search_request \<Rightarrow> js_error + search_result" where
  "site_execute q =
     (if expression q = folder_expression ''2023, SOL April'' \<and> from_cursor q = None
      then Inr \<lparr>resources = Some [photo], next_cursor = None\<rparr>
      else if expression q = folder_expression ''2024, SOL October'' \<and> from_cursor q = None
      then Inr (two_pages ! 0)
      else if expression q = folder_expression ''2024, SOL October''
        \<and> from_cursor q = Some ''c1''
      then Inr (two_pages ! 1)
      else if expression q = folder_expression ''2022-sol_april'' \<and> from_cursor q = None
      then Inr \<lparr>resources = Some [private_heic], next_cursor = Some []\<rparr>
      else if expression q = folder_expression ''Empty'' \<and> from_cursor q = None
      then Inr \<lparr>resources = None, next_cursor = None\<rparr>
      else if expression q = root_expression \<and> from_cursor q = None
      then Inr \<lparr>resources = Some [only_url], next_cursor = None\<rparr>
      else Inl (Rejected (Some ''Invalid cursor'')))"

definition site :: world where
  "site =
     \<lparr>CLOUDINARY_CLOUD_NAME = None, clock = ''2025-01-01T00:00:00.000Z'',
      localeCompare = ordinal_compare,
      root_folders =
        Inr \<lparr>folders = Some [\<lparr>name = ''2023, SOL April''\<rparr>, \<lparr>name = ''2024, SOL October''\<rparr>,
          \<lparr>name = ''2022-sol_april''\<rparr>, \<lparr>name = ''Empty''\<rparr>]\<rparr>,
      execute = site_execute\<rparr>"

text \<open>What a run on it is expected to write, and the requests it is expected to issue.\<close>

definition site_document :: document where
  "site_document =
     \<lparr>cloudName = ''ddnebrkpu'', lastUpdated = ''2025-01-01T00:00:00.000Z'',
      totalImages = 6,
      carouselImages =
        [photo_item, clip_item, photo_item, live_photo_item, private_heic_item, only_url_item],
      albums =
        [\<lparr>title = ''2024, SOL October'', folder = ''2024, SOL October'',
           coverImage = Some photo_item, images = [clip_item, photo_item, live_photo_item]\<rparr>,
         \<lparr>title = ''2023, SOL April'', folder = ''2023, SOL April'',
           coverImage = Some photo_item, images = [photo_item]\<rparr>,
         \<lparr>title = ''2022 Sol April'', folder = ''2022-sol_april'',
           coverImage = Some private_heic_item, images = [private_heic_item]\<rparr>]\<rparr>"

definition site_process :: process where
  "site_process = \<lparr>exit_code = 0, images_json = Some site_document, console_error = []\<rparr>"

definition site_requests :: "search_request list" where
  "site_requests =
     [search (folder_expression ''2023, SOL April'') None,
      search (folder_expression ''2024, SOL October'') None,
      search (folder_expression ''2024, SOL October'') (Some ''c1''),
      search (folder_expression ''2022-sol_april'') None,
      search (folder_expression ''Empty'') None,
      search root_expression None]"

text \<open>A provider whose every page is the same single photo, without a cursor.\<close>

definition one_photo :: "search_request \<Rightarrow> js_error + search_result" where
  "one_photo q = Inr \<lparr>resources = Some [photo], next_cursor = None\<rparr>"

definition three_albums :: world where
  "three_albums =
     \<lparr>CLOUDINARY_CLOUD_NAME = Some ''demo'', clock = ''2025-01-01T00:00:00.000Z'',
      localeCompare = ordinal_compare,
      root_folders =
        Inr \<lparr>folders = Some [\<lparr>name = ''2023 April''\<rparr>, \<lparr>name = ''2024 April''\<rparr>,
          \<lparr>name = ''2022 April''\<rparr>]\<rparr>,
      execute = one_photo\<rparr>"

definition mixed_case :: world where
  "mixed_case =
     \<lparr>CLOUDINARY_CLOUD_NAME = Some ''demo'', clock = ''2025-01-01T00:00:00.000Z'',
      localeCompare = alphabetic_compare,
      root_folders = Inr \<lparr>folders = Some [\<lparr>name = ''Aa''\<rparr>, \<lparr>name = ''AZ''\<rparr>]\<rparr>,
      execute = one_photo\<rparr>"

definition proto_site :: world where
  "proto_site =
     \<lparr>CLOUDINARY_CLOUD_NAME = Some ''demo'', clock = ''2025-01-01T00:00:00.000Z'',
      localeCompare = ordinal_compare,
      root_folders = Inr \<lparr>folders = Some [\<lparr>name = ''__proto__''\<rparr>]\<rparr>,
      execute =
        (\<lambda>q. if expression q = root_expression
             then Inr \<lparr>resources = Some [], next_cursor = None\<rparr>
             else one_photo q)\<rparr>"

text \<open>
  A provider that serves two pages for every expression, the first of which holds an image
  without a secure URL.
\<close>

definition broken_pages :: "search_result list" where
  "broken_pages =
     [\<lparr>resources = Some [no_url], next_cursor = Some ''c1''\<rparr>,
      \<lparr>resources = Some [photo], next_cursor = None\<rparr>]"

definition broken_site :: world where
  "broken_site =
     \<lparr>CLOUDINARY_CLOUD_NAME = None, clock = ''2025-01-01T00:00:00.000Z'',
      localeCompare = ordinal_compare,
      root_folders = Inr \<lparr>folders = Some [\<lparr>name = ''F''\<rparr>]\<rparr>,
      execute =
        (\<lambda>q. if from_cursor q = None then Inr (broken_pages ! 0)
             else if from_cursor q = Some ''c1'' then Inr (broken_pages ! 1)
             else Inl (Rejected (Some ''Invalid cursor'')))\<rparr>"

text \<open>Providers that fail: at the listing, for want of a key or for a bad one, and at a search.\<close>

definition bad_key :: world where
  "bad_key =
     \<lparr>CLOUDINARY_CLOUD_NAME = None, clock = ''2025-01-01T00:00:00.000Z'',
      localeCompare = ordinal_compare,
      root_folders = Inl (Rejected (Some ''Invalid api_key 123'')),
      execute = one_photo\<rparr>"

definition no_credentials :: world where
  "no_credentials =
     \<lparr>CLOUDINARY_CLOUD_NAME = None, clock = ''2025-01-01T00:00:00.000Z'',
      localeCompare = ordinal_compare,
      root_folders = Inl (Rejected (Some ''Must supply api_key'')),
      execute = one_photo\<rparr>"

definition outage :: world where
  "outage =
     \<lparr>CLOUDINARY_CLOUD_NAME = None, clock = ''2025-01-01T00:00:00.000Z'',
      localeCompare = ordinal_compare,
      root_folders = Inr \<lparr>folders = Some [\<lparr>name = ''2023 April''\<rparr>, \<lparr>name = ''2024 April''\<rparr>]\<rparr>,
      execute =
        (\<lambda>q. if expression q = folder_expression ''2024 April''
             then Inl (Rejected (Some ''Server error''))
             else one_photo q)\<rparr>"

text \<open>A table of covers with one entry, and a folder of three items.\<close>

definition cover_table :: "int \<Rightarrow> string \<rightharpoonup> int" where
  "cover_table i = [''F'' \<mapsto> i]"

definition three_items :: "item list" where
  "three_items = [photo_item, clip_item, live_photo_item]"

section \<open>Properties of the string operations\<close>

lemma indexOf_Some_split:
  "indexOf s pat = Some i \<Longrightarrow> s = take i s @ pat @ drop (i + length pat) s"
proof (induction s arbitrary: i)
  case Nil
  then show ?case by (simp split: if_splits)
next
  case (Cons c cs)
  show ?case
  proof (cases "prefix pat (c # cs)")
    case True
    with Cons.prems have "i = 0" by simp
    moreover from True obtain zs where "c # cs = pat @ zs" by (auto simp: prefix_def)
    ultimately show ?thesis by simp
  next
    case False
    with Cons.prems obtain j where j: "indexOf cs pat = Some j" "i = Suc j" by auto
    from Cons.IH [OF j(1)] j(2) show ?thesis by simp
  qed
qed

lemma indexOf_first:
  "indexOf s pat = Some i \<Longrightarrow> s = xs @ pat @ ys \<Longrightarrow> i \<le> length xs"
proof (induction s arbitrary: i xs)
  case Nil
  then show ?case by (simp split: if_splits)
next
  case (Cons c cs)
  show ?case
  proof (cases "prefix pat (c # cs)")
    case True
    with Cons.prems(1) show ?thesis by simp
  next
    case False
    with Cons.prems(1) obtain j where j: "indexOf cs pat = Some j" "i = Suc j" by auto
    from False Cons.prems(2) have "xs \<noteq> []" by (auto simp: prefix_def)
    then obtain x xs' where xs: "xs = x # xs'" by (cases xs) auto
    with Cons.prems(2) have "cs = xs' @ pat @ ys" by simp
    from Cons.IH [OF j(1) this] j(2) xs show ?thesis by simp
  qed
qed

lemma indexOf_None_iff: "indexOf s pat = None \<longleftrightarrow> \<not> sublist pat s"
proof (induction s)
  case Nil
  show ?case by simp
next
  case (Cons c cs)
  show ?case
  proof (cases "prefix pat (c # cs)")
    case True
    then show ?thesis by (auto dest: prefix_imp_sublist)
  next
    case False
    with Cons show ?thesis by (simp add: sublist_Cons_right)
  qed
qed

lemma str_includes_iff: "str_includes s pat \<longleftrightarrow> sublist pat s"
  by (simp add: str_includes_def indexOf_None_iff)

lemma str_replace_absent: "\<not> str_includes s pat \<Longrightarrow> str_replace s pat rep = s"
  by (simp add: str_includes_def str_replace_def)

lemma str_replace_present:
  assumes "str_includes s pat"
  shows "\<exists>pre post. s = pre @ pat @ post \<and> str_replace s pat (pat @ ins) = pre @ pat @ ins @ post
    \<and> (\<forall>pre' post'. s = pre' @ pat @ post' \<longrightarrow> length pre \<le> length pre')"
proof -
  from assms obtain i where i: "indexOf s pat = Some i"
    by (auto simp: str_includes_def)
  define pre where "pre = take i s"
  define post where "post = drop (i + length pat) s"
  from indexOf_Some_split [OF i] have s: "s = pre @ pat @ post"
    by (simp add: pre_def post_def)
  have "i \<le> length s"
  proof (rule ccontr)
    assume "\<not> i \<le> length s"
    then have "take i s = s" "drop (i + length pat) s = []" by simp_all
    with indexOf_Some_split [OF i] have "pat = []" by simp
    with i have "i = 0" by (cases s) (simp_all split: if_splits)
    with \<open>\<not> i \<le> length s\<close> show False by simp
  qed
  then have len: "length pre = i" by (simp add: pre_def)
  have first: "\<forall>pre' post'. s = pre' @ pat @ post' \<longrightarrow> length pre \<le> length pre'"
    using indexOf_first [OF i] len by blast
  have "str_replace s pat (pat @ ins) = pre @ pat @ ins @ post"
    by (simp add: str_replace_def i pre_def post_def)
  with s first show ?thesis by blast
qed

section \<open>Properties of the classifier\<close>

lemma call_replace_Str: "call_replace (JStr s) pat rep = Inr (str_replace s pat rep)"
  by (simp add: call_replace_def)

lemma call_includes_Str: "call_includes (JStr s) pat = Inr (str_includes s pat)"
  by (simp add: call_includes_def)

lemma call_replace_not_Str: "(\<nexists>s. v = JStr s) \<Longrightarrow> call_replace v pat rep = Inl TypeError"
  by (cases v) (simp_all add: call_replace_def)

lemma call_includes_Arr: "call_includes (JArr xs) pat = Inr (JStr pat \<in> set xs)"
  by (simp add: call_includes_def)

lemma convert_video:
  assumes "resource_type r = JStr ''video''" "format r \<noteq> JStr ''heic''" "secure_url r = JStr u"
  shows "convertToBrowserFormat r =
    Inr \<lparr>url = JStr (str_replace u ''/video/upload/'' (''/video/upload/'' @ ''so_0,f_jpg,q_auto/'')),
      originalUrl = JStr u, isVideo = True, isHEICLivePhoto = None\<rparr>"
  using assms by (simp add: convertToBrowserFormat_def Let_def isHEICVideo_def call_replace_Str)

lemma convert_image:
  assumes "resource_type r \<noteq> JStr ''video''" "secure_url r = JStr u"
  shows "convertToBrowserFormat r =
    Inr \<lparr>url = JStr (str_replace u ''/image/upload/'' (''/image/upload/'' @ ''f_auto,q_auto/'')),
      originalUrl = JStr u, isVideo = False, isHEICLivePhoto = None\<rparr>"
proof (cases "str_includes u ''/image/upload/''")
  case True
  with assms show ?thesis
    by (simp add: convertToBrowserFormat_def Let_def isHEICVideo_def call_replace_Str call_includes_Str)
next
  case False
  from str_replace_absent [OF False] have "str_replace u ''/image/upload/'' ''/image/upload/f_auto,q_auto/'' = u"
    by simp
  with False assms show ?thesis
    by (simp add: convertToBrowserFormat_def Let_def isHEICVideo_def call_replace_Str call_includes_Str)
qed

text \<open>
  Claim C1. An asset whose resource kind is video and whose format is heic is classified
  as a live photo: \<open>isVideo\<close> and \<open>isHEICLivePhoto\<close> are true, and \<open>url\<close> and
  \<open>originalUrl\<close> are both the secure URL of the asset, with nothing inserted.
\<close>

theorem heic_video_is_live_photo:
  assumes "resource_type r = JStr ''video''" and "format r = JStr ''heic''"
  shows "convertToBrowserFormat r =
    Inr \<lparr>url = secure_url r, originalUrl = secure_url r, isVideo = True,
      isHEICLivePhoto = Some True\<rparr>"
  using assms by (simp add: convertToBrowserFormat_def Let_def isHEICVideo_def)

text \<open>
  Claim C2, amended. An asset whose resource kind is video and whose format is not heic,
  and whose secure URL is a string \<open>u\<close>, is classified as a video that is no live photo (the property
  \<open>isHEICLivePhoto\<close> is absent); \<open>originalUrl\<close> is \<open>u\<close>. When \<open>u\<close> holds the segment
  \<open>/video/upload/\<close>, \<open>url\<close> is \<open>u\<close> with \<open>so_0,f_jpg,q_auto/\<close> spliced right after the
  first occurrence of the segment; when it does not, \<open>url\<close> is \<open>u\<close>.
\<close>

theorem video_poster:
  assumes "resource_type r = JStr ''video''" and "format r \<noteq> JStr ''heic''"
    and "secure_url r = JStr u"
  shows "\<exists>v. convertToBrowserFormat r =
        Inr \<lparr>url = JStr v, originalUrl = JStr u, isVideo = True, isHEICLivePhoto = None\<rparr>
      \<and> (if str_includes u ''/video/upload/''
         then \<exists>pre post. u = pre @ ''/video/upload/'' @ post
              \<and> v = pre @ ''/video/upload/'' @ ''so_0,f_jpg,q_auto/'' @ post
              \<and> (\<forall>pre' post'. u = pre' @ ''/video/upload/'' @ post' \<longrightarrow> length pre \<le> length pre')
         else v = u)"
proof (cases "str_includes u ''/video/upload/''")
  case True
  from str_replace_present [OF True, of "''so_0,f_jpg,q_auto/''"] convert_video [OF assms] True
  show ?thesis by auto
next
  case False
  from str_replace_absent [OF False] convert_video [OF assms] False
  show ?thesis by auto
qed

text \<open>
  Claim C3, amended. An asset whose resource kind is not video, with a secure URL \<open>u\<close>,
  is classified as no video, with \<open>originalUrl\<close> \<open>u\<close>. Whatever its format, when \<open>u\<close>
  holds the segment \<open>/image/upload/\<close>, \<open>url\<close> is \<open>u\<close> with \<open>f_auto,q_auto/\<close> spliced right
  after the first occurrence of the segment; when it does not, \<open>url\<close> is \<open>u\<close>, also for a
  heic or heif asset.
\<close>

theorem image_auto_format:
  assumes "resource_type r \<noteq> JStr ''video''" and "secure_url r = JStr u"
  shows "\<exists>v. convertToBrowserFormat r =
        Inr \<lparr>url = JStr v, originalUrl = JStr u, isVideo = False, isHEICLivePhoto = None\<rparr>
      \<and> (if str_includes u ''/image/upload/''
         then \<exists>pre post. u = pre @ ''/image/upload/'' @ post
              \<and> v = pre @ ''/image/upload/'' @ ''f_auto,q_auto/'' @ post
              \<and> (\<forall>pre' post'. u = pre' @ ''/image/upload/'' @ post' \<longrightarrow> length pre \<le> length pre')
         else v = u)"
proof (cases "str_includes u ''/image/upload/''")
  case True
  from str_replace_present [OF True, of "''f_auto,q_auto/''"] convert_image [OF assms] True
  show ?thesis by auto
next
  case False
  from str_replace_absent [OF False] convert_image [OF assms] False
  show ?thesis by auto
qed

text \<open>
  Claim C4, amended. On an asset whose secure URL is a string, whatever its format and
  its resource kind, missing ones included, and on a heic video, the classifier returns an
  item and does not throw: a video exactly when the resource kind is video, with the
  secure URL as \<open>originalUrl\<close>.
\<close>

theorem classifier_returns_on_string_url:
  assumes "(resource_type r = JStr ''video'' \<and> format r = JStr ''heic'')
    \<or> (\<exists>u. secure_url r = JStr u)"
  shows "\<exists>it. convertToBrowserFormat r = Inr it \<and> originalUrl it = secure_url r
    \<and> isVideo it = (resource_type r = JStr ''video'')"
proof (cases "isHEICVideo r")
  case True
  then show ?thesis by (simp add: convertToBrowserFormat_def Let_def isHEICVideo_def)
next
  case False
  with assms obtain u where u: "secure_url r = JStr u" by (auto simp: isHEICVideo_def)
  show ?thesis
  proof (cases "resource_type r = JStr ''video''")
    case True
    with False have "format r \<noteq> JStr ''heic''" by (simp add: isHEICVideo_def)
    with True u show ?thesis by (simp add: convert_video)
  next
    case False
    with u show ?thesis by (simp add: convert_image)
  qed
qed

theorem heic_video_is_live_photo_witness:
  "convertToBrowserFormat live_photo =
     Inr \<lparr>url = JStr ''https://res.cloudinary.com/demo/video/upload/v1/live.heic'',
       originalUrl = JStr ''https://res.cloudinary.com/demo/video/upload/v1/live.heic'',
       isVideo = True, isHEICLivePhoto = Some True\<rparr>"
  using heic_video_is_live_photo [of live_photo] by (simp add: live_photo_def)

theorem video_poster_witness:
  "convertToBrowserFormat clip =
     Inr \<lparr>url = JStr ''https://res.cloudinary.com/demo/video/upload/so_0,f_jpg,q_auto/v1/clip.mp4'',
       originalUrl = JStr ''https://res.cloudinary.com/demo/video/upload/v1/clip.mp4'',
       isVideo = True, isHEICLivePhoto = None\<rparr>
   \<and> str_includes ''https://res.cloudinary.com/demo/video/upload/v1/clip.mp4'' ''/video/upload/''"
proof -
  have inc: "str_includes ''https://res.cloudinary.com/demo/video/upload/v1/clip.mp4'' ''/video/upload/''"
    by (simp add: str_includes_def)
  have "convertToBrowserFormat clip =
     Inr \<lparr>url = JStr ''https://res.cloudinary.com/demo/video/upload/so_0,f_jpg,q_auto/v1/clip.mp4'',
       originalUrl = JStr ''https://res.cloudinary.com/demo/video/upload/v1/clip.mp4'',
       isVideo = True, isHEICLivePhoto = None\<rparr>"
    by (simp add: clip_def convertToBrowserFormat_def isHEICVideo_def call_replace_def
        str_replace_def Let_def)
  with inc video_poster [of clip "''https://res.cloudinary.com/demo/video/upload/v1/clip.mp4''"]
  show ?thesis by (simp add: clip_def)
qed

text \<open>
  Claim C2 as stated fails: a video that is no heic and has no secure URL makes the
  classifier throw, where the claim has it return an item.
\<close>

theorem video_without_url_throws:
  "resource_type clip_no_url = JStr ''video'' \<and> format clip_no_url \<noteq> JStr ''heic''
   \<and> convertToBrowserFormat clip_no_url = Inl TypeError"
  by (simp add: clip_no_url_def convertToBrowserFormat_def isHEICVideo_def call_replace_def
        Let_def)

theorem image_auto_format_witness:
  "convertToBrowserFormat photo =
     Inr \<lparr>url = JStr ''https://res.cloudinary.com/demo/image/upload/f_auto,q_auto/v1/a.jpg'',
       originalUrl = JStr ''https://res.cloudinary.com/demo/image/upload/v1/a.jpg'',
       isVideo = False, isHEICLivePhoto = None\<rparr>
   \<and> convertToBrowserFormat private_heic =
     Inr \<lparr>url = JStr ''https://res.cloudinary.com/demo/image/private/v1/a.heic'',
       originalUrl = JStr ''https://res.cloudinary.com/demo/image/private/v1/a.heic'',
       isVideo = False, isHEICLivePhoto = None\<rparr>"
proof -
  have "convertToBrowserFormat photo =
     Inr \<lparr>url = JStr ''https://res.cloudinary.com/demo/image/upload/f_auto,q_auto/v1/a.jpg'',
       originalUrl = JStr ''https://res.cloudinary.com/demo/image/upload/v1/a.jpg'',
       isVideo = False, isHEICLivePhoto = None\<rparr>"
    by (simp add: photo_def convertToBrowserFormat_def isHEICVideo_def call_replace_def
        call_includes_def str_includes_def str_replace_def Let_def)
  moreover have "\<not> str_includes ''https://res.cloudinary.com/demo/image/private/v1/a.heic'' ''/image/upload/''"
    by (simp add: str_includes_def)
  with image_auto_format [of private_heic "''https://res.cloudinary.com/demo/image/private/v1/a.heic''"]
  have "convertToBrowserFormat private_heic =
     Inr \<lparr>url = JStr ''https://res.cloudinary.com/demo/image/private/v1/a.heic'',
       originalUrl = JStr ''https://res.cloudinary.com/demo/image/private/v1/a.heic'',
       isVideo = False, isHEICLivePhoto = None\<rparr>"
    by (simp add: private_heic_def)
  ultimately show ?thesis by simp
qed

text \<open>
  Claim C3 as stated fails: a heic image delivered under \<open>/image/private/\<close> keeps its
  URL, which holds no \<open>f_auto,q_auto\<close>.
\<close>

theorem heic_without_upload_segment_unchanged:
  "format private_heic = JStr ''heic'' \<and> resource_type private_heic \<noteq> JStr ''video''
   \<and> convertToBrowserFormat private_heic =
     Inr \<lparr>url = JStr ''https://res.cloudinary.com/demo/image/private/v1/a.heic'',
       originalUrl = JStr ''https://res.cloudinary.com/demo/image/private/v1/a.heic'',
       isVideo = False, isHEICLivePhoto = None\<rparr>
   \<and> \<not> str_includes ''https://res.cloudinary.com/demo/image/private/v1/a.heic'' ''f_auto,q_auto''"
  by (simp add: private_heic_def convertToBrowserFormat_def isHEICVideo_def call_replace_def
        call_includes_def str_includes_def str_replace_def Let_def)

text \<open>Claim C4 as stated fails: an image without a secure URL makes the classifier throw.\<close>

theorem missing_url_throws:
  "convertToBrowserFormat no_url = Inl TypeError"
  by (simp add: no_url_def convertToBrowserFormat_def isHEICVideo_def call_replace_def
        call_includes_def Let_def)

theorem classifier_returns_on_string_url_witness:
  "convertToBrowserFormat only_url =
     Inr \<lparr>url = JStr ''https://res.cloudinary.com/demo/raw/upload/v1/a.bin'',
       originalUrl = JStr ''https://res.cloudinary.com/demo/raw/upload/v1/a.bin'',
       isVideo = False, isHEICLivePhoto = None\<rparr>
   \<and> resource_type only_url = JUndefined \<and> format only_url = JUndefined
   \<and> (\<exists>it. convertToBrowserFormat only_url = Inr it \<and> originalUrl it = secure_url only_url
        \<and> isVideo it = (resource_type only_url = JStr ''video''))"
proof -
  have "(resource_type only_url = JStr ''video'' \<and> format only_url = JStr ''heic'')
    \<or> (\<exists>u. secure_url only_url = JStr u)"
    by (simp add: only_url_def)
  from classifier_returns_on_string_url [OF this]
  have "\<exists>it. convertToBrowserFormat only_url = Inr it \<and> originalUrl it = secure_url only_url
        \<and> isVideo it = (resource_type only_url = JStr ''video'')" .
  moreover have "convertToBrowserFormat only_url =
     Inr \<lparr>url = JStr ''https://res.cloudinary.com/demo/raw/upload/v1/a.bin'',
       originalUrl = JStr ''https://res.cloudinary.com/demo/raw/upload/v1/a.bin'',
       isVideo = False, isHEICLivePhoto = None\<rparr>"
    by (simp add: only_url_def convertToBrowserFormat_def isHEICVideo_def call_replace_def
        call_includes_def str_includes_def str_replace_def Let_def)
  moreover have "resource_type only_url = JUndefined \<and> format only_url = JUndefined"
    by (simp add: only_url_def)
  ultimately show ?thesis by blast
qed

text \<open>
  A secure URL that is no string does not always make the classifier throw: an array
  has the method \<open>includes\<close>, so that an image whose URL is an array without the segment
  among its elements is passed through.
\<close>

lemma array_url_passes_through:
  "convertToBrowserFormat url_array =
     Inr \<lparr>url = JArr [], originalUrl = JArr [], isVideo = False, isHEICLivePhoto = None\<rparr>"
  by (simp add: url_array_def convertToBrowserFormat_def isHEICVideo_def call_includes_def
        Let_def)

text \<open>An item that is a live photo is a video.\<close>

lemma live_photo_is_video:
  "convertToBrowserFormat r = Inr it \<Longrightarrow> isHEICLivePhoto it = Some True \<Longrightarrow> isVideo it"
  by (auto simp: convertToBrowserFormat_def Let_def split: if_splits sum.splits bool.splits)

section \<open>The fetch loops\<close>

text \<open>
  The loop started with arrays that are not empty does what it does from empty ones, and
  appends: the two arrays receive the same items.
\<close>

lemma fetchPages_shift:
  "fetchPages n W e c fi ai lg =
     (case fetchPages n W e c [] [] [] of
        (Pending, new) \<Rightarrow> (Pending, lg @ new)
      | (Threw err, new) \<Rightarrow> (Threw err, lg @ new)
      | (Returned (ys, zs), new) \<Rightarrow> (Returned (fi @ ys, ai @ zs), lg @ new))"
proof (induction n arbitrary: c fi ai lg)
  case 0
  show ?case by simp
next
  case (Suc n)
  show ?case
  proof (cases "execute W (search e c)")
    case (Inl err)
    then show ?thesis by simp
  next
    case (Inr result)
    show ?thesis
    proof (cases "map_convert (case resources result of None \<Rightarrow> [] | Some rs \<Rightarrow> rs)")
      case (Inl err)
      with Inr show ?thesis by simp
    next
      case conv: (Inr its)
      show ?thesis
      proof (cases "truthy (next_cursor result)")
        case False
        with Inr conv show ?thesis by simp
      next
        case True
        let ?X = "fetchPages n W e (next_cursor result) [] [] []"
        have A: "fetchPages n W e (next_cursor result) (fi @ its) (ai @ its) (lg @ [search e c]) =
          (case ?X of
             (Pending, new) \<Rightarrow> (Pending, (lg @ [search e c]) @ new)
           | (Threw err, new) \<Rightarrow> (Threw err, (lg @ [search e c]) @ new)
           | (Returned (ys, zs), new) \<Rightarrow>
               (Returned ((fi @ its) @ ys, (ai @ its) @ zs), (lg @ [search e c]) @ new))"
          by (rule Suc.IH)
        have B: "fetchPages n W e (next_cursor result) its its [search e c] =
          (case ?X of
             (Pending, new) \<Rightarrow> (Pending, [search e c] @ new)
           | (Threw err, new) \<Rightarrow> (Threw err, [search e c] @ new)
           | (Returned (ys, zs), new) \<Rightarrow> (Returned (its @ ys, its @ zs), [search e c] @ new))"
          by (rule Suc.IH)
        have L: "fetchPages (Suc n) W e c fi ai lg =
          fetchPages n W e (next_cursor result) (fi @ its) (ai @ its) (lg @ [search e c])"
          using Inr conv True by simp
        have R: "fetchPages (Suc n) W e c [] [] [] =
          fetchPages n W e (next_cursor result) its its [search e c]"
          using Inr conv True by simp
        show ?thesis
          unfolding L R A B by (cases ?X) (simp split: run.splits prod.splits)
      qed
    qed
  qed
qed

lemma fetchPages_same:
  "fetchPages n W e c fi ai lg = (Returned (fi', ai'), lg')
   \<Longrightarrow> \<exists>ys. fi' = fi @ ys \<and> ai' = ai @ ys"
proof (induction n arbitrary: c fi ai lg)
  case 0
  then show ?case by simp
next
  case (Suc n)
  from Suc.prems show ?case
    by (auto split: sum.splits if_splits dest!: Suc.IH)
qed

lemma fetchPages_Returned:
  assumes "fetchPages n W e c fi ai lg = (Returned (fi', ai'), lg')"
  shows "\<exists>ys new. fetchPages n W e c [] [] [] = (Returned (ys, ys), new)
    \<and> fi' = fi @ ys \<and> ai' = ai @ ys \<and> lg' = lg @ new"
proof -
  obtain r new where X: "fetchPages n W e c [] [] [] = (r, new)"
    by (cases "fetchPages n W e c [] [] []")
  from assms fetchPages_shift [of n W e c fi ai lg] X
  obtain ys zs where r: "r = Returned (ys, zs)" and eqs: "fi' = fi @ ys" "ai' = ai @ zs" "lg' = lg @ new"
    by (cases r) (auto split: prod.splits)
  from X r fetchPages_same [of n W e c "[]" "[]" "[]" ys zs new] have "ys = zs" by auto
  with X r eqs show ?thesis by simp
qed

lemma fetchFolder_Returned:
  "fetchFolder n W e = Returned ys \<longleftrightarrow> (\<exists>new. fetchPages n W e None [] [] [] = (Returned (ys, ys), new))"
proof
  assume "fetchFolder n W e = Returned ys"
  then obtain zs new where "fetchPages n W e None [] [] [] = (Returned (ys, zs), new)"
    by (cases "fetchPages n W e None [] [] []")
      (auto simp: fetchFolder_def split: run.splits prod.splits)
  with fetchPages_Returned [OF this] show "\<exists>new. fetchPages n W e None [] [] [] = (Returned (ys, ys), new)"
    by auto
next
  assume "\<exists>new. fetchPages n W e None [] [] [] = (Returned (ys, ys), new)"
  then show "fetchFolder n W e = Returned ys" by (auto simp: fetchFolder_def)
qed

lemma fetchPages_fetchFolder:
  assumes "fetchPages n W e None fi ai lg = (Returned (fi', ai'), lg')"
  shows "\<exists>ys. fetchFolder n W e = Returned ys \<and> fi' = fi @ ys \<and> ai' = ai @ ys"
  using fetchPages_Returned [OF assms] by (auto simp: fetchFolder_Returned)

lemma forFolders_Returned:
  "forFolders n W fs obj ai lg = (Returned (obj', ai'), lg')
   \<Longrightarrow> \<exists>seqs. list_all2 (\<lambda>f s. fetchFolder n W (folder_expression (name f)) = Returned s) fs seqs
         \<and> ai' = ai @ concat seqs
         \<and> obj' = fold (\<lambda>(f, s) ob. if s \<noteq> [] then obj_set ob (name f) s else ob) (zip fs seqs) obj"
proof (induction fs arbitrary: obj ai lg)
  case Nil
  then show ?case by simp
next
  case (Cons f fs)
  from Cons.prems obtain fi ai1 lg1 where
    page: "fetchPages n W (folder_expression (name f)) None [] ai lg = (Returned (fi, ai1), lg1)"
    and rest: "forFolders n W fs (if length fi > 0 then obj_set obj (name f) fi else obj) ai1 lg1
      = (Returned (obj', ai'), lg')"
    by (auto split: prod.splits run.splits)
  from fetchPages_fetchFolder [OF page]
  have ff: "fetchFolder n W (folder_expression (name f)) = Returned fi" and ai1: "ai1 = ai @ fi"
    by auto
  from Cons.IH [OF rest] obtain seqs where
    seqs: "list_all2 (\<lambda>f s. fetchFolder n W (folder_expression (name f)) = Returned s) fs seqs"
    and ai': "ai' = ai1 @ concat seqs"
    and obj': "obj' = fold (\<lambda>(f, s) ob. if s \<noteq> [] then obj_set ob (name f) s else ob) (zip fs seqs)
          (if length fi > 0 then obj_set obj (name f) fi else obj)"
    by blast
  show ?case
  proof (intro exI [of _ "fi # seqs"] conjI)
    show "list_all2 (\<lambda>f s. fetchFolder n W (folder_expression (name f)) = Returned s) (f # fs) (fi # seqs)"
      using ff seqs by simp
    show "ai' = ai @ concat (fi # seqs)" using ai' ai1 by simp
    show "obj' = fold (\<lambda>(f, s) ob. if s \<noteq> [] then obj_set ob (name f) s else ob)
        (zip (f # fs) (fi # seqs)) obj"
      using obj' by simp
  qed
qed

lemma tryBlock_Returned:
  assumes "tryBlock n W = (Returned out, reqs)"
  shows "\<exists>fr obj ai lg rootImages ai'.
      root_folders W = Inr fr
    \<and> forFolders n W (case folders fr of None \<Rightarrow> [] | Some fs \<Rightarrow> fs) [] [] [] = (Returned (obj, ai), lg)
    \<and> fetchPages n W root_expression None [] ai lg = (Returned (rootImages, ai'), reqs)
    \<and> out = \<lparr>cloudName = cloud_name W, lastUpdated = clock W,
              totalImages = length ai', carouselImages = ai',
              albums = js_sort (\<lambda>a b. localeCompare W (title b) (title a))
                (map (toAlbum (map_of albumCovers)) (object_entries obj))\<rparr>"
  using assms unfolding tryBlock_def
  by (auto split: sum.splits prod.splits run.splits)

lemma fetchAllImages_written:
  "fetchAllImages n W = (Some p, reqs) \<Longrightarrow> images_json p = Some out
   \<Longrightarrow> tryBlock n W = (Returned out, reqs) \<and> exit_code p = 0 \<and> console_error p = []"
  unfolding fetchAllImages_def
  by (auto split: prod.splits run.splits)

text \<open>
  Claim C10. In a run that writes its file, \<open>carouselImages\<close> is the concatenation of
  the item sequences of the folders, in the order of the listing, followed by the item
  sequence of the root, and \<open>totalImages\<close> is its length.
\<close>

theorem carousel_is_concatenation:
  assumes "fetchAllImages n W = (Some p, reqs)" and "images_json p = Some out"
  shows "\<exists>fr seqs rootItems.
      root_folders W = Inr fr
    \<and> list_all2 (\<lambda>f s. fetchFolder n W (folder_expression (name f)) = Returned s)
        (case folders fr of None \<Rightarrow> [] | Some fs \<Rightarrow> fs) seqs
    \<and> fetchFolder n W root_expression = Returned rootItems
    \<and> carouselImages out = concat seqs @ rootItems
    \<and> totalImages out = length (carouselImages out)"
proof -
  from fetchAllImages_written [OF assms] have "tryBlock n W = (Returned out, reqs)" by simp
  from tryBlock_Returned [OF this] obtain fr obj ai lg rootImages ai' where
    fr: "root_folders W = Inr fr"
    and loop: "forFolders n W (case folders fr of None \<Rightarrow> [] | Some fs \<Rightarrow> fs) [] [] [] = (Returned (obj, ai), lg)"
    and root: "fetchPages n W root_expression None [] ai lg = (Returned (rootImages, ai'), reqs)"
    and out: "carouselImages out = ai'" "totalImages out = length ai'"
    by auto
  from forFolders_Returned [OF loop] obtain seqs where
    seqs: "list_all2 (\<lambda>f s. fetchFolder n W (folder_expression (name f)) = Returned s)
        (case folders fr of None \<Rightarrow> [] | Some fs \<Rightarrow> fs) seqs"
    and ai: "ai = concat seqs" by auto
  from fetchPages_fetchFolder [OF root] obtain ys where
    "fetchFolder n W root_expression = Returned ys" "ai' = ai @ ys" by auto
  with fr seqs ai out show ?thesis by auto
qed

theorem carousel_is_concatenation_witness:
  "fetchAllImages 2 site = (Some site_process, site_requests)
   \<and> images_json site_process = Some site_document
   \<and> carouselImages site_document =
       concat [[photo_item], [clip_item, photo_item, live_photo_item], [private_heic_item], []]
         @ [only_url_item]
   \<and> (\<exists>fr seqs rootItems.
        root_folders site = Inr fr
      \<and> list_all2 (\<lambda>f s. fetchFolder 2 site (folder_expression (name f)) = Returned s)
          (case folders fr of None \<Rightarrow> [] | Some fs \<Rightarrow> fs) seqs
      \<and> fetchFolder 2 site root_expression = Returned rootItems
      \<and> carouselImages site_document = concat seqs @ rootItems
      \<and> totalImages site_document = length (carouselImages site_document))"
proof -
  have run: "fetchAllImages 2 site = (Some site_process, site_requests)"
    by code_simp
  have written: "images_json site_process = Some site_document"
    by (simp add: site_process_def)
  have "carouselImages site_document =
       concat [[photo_item], [clip_item, photo_item, live_photo_item], [private_heic_item], []]
         @ [only_url_item]"
    by (simp add: site_document_def)
  with run written carousel_is_concatenation [OF run written] show ?thesis
    by blast
qed

section \<open>Cover selection\<close>

lemma js_nth_in_bounds: "0 \<le> i \<Longrightarrow> i < int (length xs) \<Longrightarrow> js_nth xs i = Some (xs ! nat i)"
  by (simp add: js_nth_def)

lemma js_nth_out_of_bounds: "i < 0 \<or> int (length xs) \<le> i \<Longrightarrow> js_nth xs i = None"
  by (auto simp: js_nth_def)

lemma toAlbum_fields:
  "title (toAlbum covers (k, imgs)) = formatFolderName k"
  "folder (toAlbum covers (k, imgs)) = k"
  "images (toAlbum covers (k, imgs)) = imgs"
  by (simp_all add: toAlbum_def Let_def)

text \<open>
  Claim C5. For a folder that is not empty, the cover of its album is the item at the
  index the table of covers gives for the folder when there is one and it is within the
  bounds of the folder's items, and the first item otherwise.
\<close>

theorem cover_selection:
  assumes "imgs \<noteq> []"
  shows "coverImage (toAlbum covers (k, imgs)) =
    Some (case covers k of
            None \<Rightarrow> imgs ! 0
          | Some i \<Rightarrow> if 0 \<le> i \<and> i < int (length imgs) then imgs ! nat i else imgs ! 0)"
proof -
  from assms have zero: "js_nth imgs 0 = Some (imgs ! 0)"
    by (simp add: js_nth_def)
  show ?thesis
  proof (cases "covers k")
    case None
    with zero show ?thesis by (simp add: toAlbum_def)
  next
    case (Some i)
    show ?thesis
    proof (cases "0 \<le> i \<and> i < int (length imgs)")
      case True
      with Some show ?thesis by (simp add: toAlbum_def js_nth_in_bounds)
    next
      case False
      then have "js_nth imgs i = None" by (auto simp: js_nth_def)
      with Some False zero show ?thesis by (auto simp: toAlbum_def)
    qed
  qed
qed

theorem cover_selection_witness:
  "three_items \<noteq> []
   \<and> coverImage (toAlbum (cover_table 2) (''F'', three_items)) = Some (three_items ! 2)
   \<and> coverImage (toAlbum (cover_table 5) (''F'', three_items)) = Some (three_items ! 0)
   \<and> coverImage (toAlbum (cover_table 2) (''G'', three_items)) = Some (three_items ! 0)"
proof -
  have ne: "three_items \<noteq> []" by (simp add: three_items_def)
  have len: "length three_items = 3" by (simp add: three_items_def)
  from cover_selection [OF ne, of "cover_table 2" "''F''"] len
  have "coverImage (toAlbum (cover_table 2) (''F'', three_items)) = Some (three_items ! 2)"
    by (simp add: cover_table_def)
  moreover from cover_selection [OF ne, of "cover_table 5" "''F''"] len
  have "coverImage (toAlbum (cover_table 5) (''F'', three_items)) = Some (three_items ! 0)"
    by (simp add: cover_table_def)
  moreover from cover_selection [OF ne, of "cover_table 2" "''G''"]
  have "coverImage (toAlbum (cover_table 2) (''G'', three_items)) = Some (three_items ! 0)"
    by (simp add: cover_table_def)
  ultimately show ?thesis using ne by simp
qed

section \<open>Pagination\<close>

text \<open>The test of the loop: the cursor is a string that is not empty.\<close>

lemma truthy_iff: "truthy c \<longleftrightarrow> (\<exists>k. c = Some k \<and> k \<noteq> [])"
  by (cases c) (simp_all add: truthy_def)

lemma map_convert_returns:
  "(\<forall>r \<in> set rs. \<exists>it. convertToBrowserFormat r = Inr it)
   \<Longrightarrow> \<exists>its. map_convert rs = Inr its \<and> length its = length rs"
proof (induction rs)
  case Nil
  show ?case by simp
next
  case (Cons r rs)
  then obtain it where "convertToBrowserFormat r = Inr it" by auto
  moreover from Cons obtain its where "map_convert rs = Inr its" "length its = length rs"
    by auto
  ultimately show ?case by simp
qed

text \<open>
  Claim C8, amended. When the provider answers a fetch with \<open>N\<close> pages, each but the last
  with a cursor that is not empty and the last with none, and the classifier throws on
  none of the assets on them, the loop, allowed at least \<open>N\<close> iterations, returns after
  exactly \<open>N\<close> requests: the first with the cursor the loop starts from (none), each later
  one with the cursor of the page before it, and none after the page that carries no
  cursor. It returns one item for each asset.
\<close>

theorem pagination_one_request_per_page:
  assumes "serves W expr c pages"
    and "\<forall>p \<in> set pages. \<forall>r \<in> set (case resources p of None \<Rightarrow> [] | Some rs \<Rightarrow> rs).
           \<exists>it. convertToBrowserFormat r = Inr it"
    and "length pages \<le> n"
  shows "\<exists>its. fetchPages n W expr c fi ai reqs =
        (Returned (fi @ its, ai @ its),
         reqs @ map (search expr) (c # map next_cursor (butlast pages)))
      \<and> length (map (search expr) (c # map next_cursor (butlast pages))) = length pages
      \<and> length its = length (concat (map (\<lambda>p. case resources p of None \<Rightarrow> [] | Some rs \<Rightarrow> rs) pages))
      \<and> next_cursor (last pages) = None"
  using assms
proof (induction pages arbitrary: n c fi ai reqs)
  case Nil
  then show ?case by simp
next
  case (Cons p ps)
  from Cons.prems(3) obtain m where n: "n = Suc m" and m: "length ps \<le> m"
    by (cases n) auto
  from Cons.prems(2) have "\<forall>r \<in> set (case resources p of None \<Rightarrow> [] | Some rs \<Rightarrow> rs).
      \<exists>it. convertToBrowserFormat r = Inr it" by simp
  from map_convert_returns [OF this] obtain its where
    its: "map_convert (case resources p of None \<Rightarrow> [] | Some rs \<Rightarrow> rs) = Inr its"
    and len: "length its = length (case resources p of None \<Rightarrow> [] | Some rs \<Rightarrow> rs)"
    by blast
  show ?case
  proof (cases ps)
    case Nil
    with Cons.prems(1) have "execute W (search expr c) = Inr p" "next_cursor p = None"
      by simp_all
    with its len n Nil show ?thesis by (simp add: truthy_def)
  next
    case (Cons q qs)
    with Cons.prems(1) obtain k where ex: "execute W (search expr c) = Inr p"
      and k: "next_cursor p = Some k" "k \<noteq> []"
      and rest: "serves W expr (Some k) ps"
      by (auto split: option.splits)
    from k have more: "truthy (next_cursor p)" by (simp add: truthy_def)
    from Cons.prems(2) have conv: "\<forall>p \<in> set ps.
      \<forall>r \<in> set (case resources p of None \<Rightarrow> [] | Some rs \<Rightarrow> rs).
        \<exists>it. convertToBrowserFormat r = Inr it"
      by simp
    from Cons.IH [OF rest conv m, of "fi @ its" "ai @ its" "reqs @ [search expr c]"]
    obtain its' where step: "fetchPages m W expr (Some k) (fi @ its) (ai @ its)
          (reqs @ [search expr c]) =
        (Returned ((fi @ its) @ its', (ai @ its) @ its'),
         (reqs @ [search expr c]) @ map (search expr) (Some k # map next_cursor (butlast ps)))"
      and len': "length its' = length (concat (map (\<lambda>p. case resources p of None \<Rightarrow> [] | Some rs \<Rightarrow> rs) ps))"
      and last: "next_cursor (last ps) = None"
      by blast
    have "fetchPages n W expr c fi ai reqs =
        (Returned (fi @ (its @ its'), ai @ (its @ its')),
         reqs @ map (search expr) (c # map next_cursor (butlast (p # ps))))"
      using n ex its more step Cons k by simp
    moreover have "length (its @ its') =
        length (concat (map (\<lambda>p. case resources p of None \<Rightarrow> [] | Some rs \<Rightarrow> rs) (p # ps)))"
      using len len' by simp
    moreover have "next_cursor (last (p # ps)) = None"
      using last Cons by simp
    moreover have "length (map (search expr) (c # map next_cursor (butlast (p # ps)))) = length (p # ps)"
      using Cons by simp
    ultimately show ?thesis by blast
  qed
qed

theorem pagination_one_request_per_page_witness:
  "serves site (folder_expression ''2024, SOL October'') None two_pages
   \<and> length two_pages = 2
   \<and> fetchPages 2 site (folder_expression ''2024, SOL October'') None [] [] [] =
       (Returned ([clip_item, photo_item, live_photo_item], [clip_item, photo_item, live_photo_item]),
        [search (folder_expression ''2024, SOL October'') None,
         search (folder_expression ''2024, SOL October'') (Some ''c1'')])
   \<and> (\<exists>its. fetchPages 2 site (folder_expression ''2024, SOL October'') None [] [] [] =
        (Returned ([] @ its, [] @ its),
         [] @ map (search (folder_expression ''2024, SOL October''))
                (None # map next_cursor (butlast two_pages)))
      \<and> length its = 3)"
proof -
  have s: "serves site (folder_expression ''2024, SOL October'') None two_pages"
    by code_simp
  have "convertToBrowserFormat clip = Inr clip_item" "convertToBrowserFormat photo = Inr photo_item"
    "convertToBrowserFormat live_photo = Inr live_photo_item"
    by code_simp+
  then have u: "\<forall>p \<in> set two_pages. \<forall>r \<in> set (case resources p of None \<Rightarrow> [] | Some rs \<Rightarrow> rs).
           \<exists>it. convertToBrowserFormat r = Inr it"
    by (simp add: two_pages_def)
  have l: "length two_pages \<le> 2" by (simp add: two_pages_def)
  have c: "length (concat (map (\<lambda>p. case resources p of None \<Rightarrow> [] | Some rs \<Rightarrow> rs) two_pages)) = 3"
    by (simp add: two_pages_def)
  have e: "fetchPages 2 site (folder_expression ''2024, SOL October'') None [] [] [] =
       (Returned ([clip_item, photo_item, live_photo_item], [clip_item, photo_item, live_photo_item]),
        [search (folder_expression ''2024, SOL October'') None,
         search (folder_expression ''2024, SOL October'') (Some ''c1'')])"
    by code_simp
  from pagination_one_request_per_page [OF s u l, of "[]" "[]" "[]"] c
  have "\<exists>its. fetchPages 2 site (folder_expression ''2024, SOL October'') None [] [] [] =
        (Returned ([] @ its, [] @ its),
         [] @ map (search (folder_expression ''2024, SOL October''))
                (None # map next_cursor (butlast two_pages)))
      \<and> length its = 3"
    by auto
  with s e show ?thesis by (simp add: two_pages_def)
qed

text \<open>
  Claim C8 as stated fails: a provider serves two pages, and the loop issues one request
  and throws, for the first page holds an image without a secure URL.
\<close>

theorem pagination_aborted_by_classifier:
  "serves broken_site (folder_expression ''F'') None broken_pages
   \<and> length broken_pages = 2
   \<and> fetchPages 2 broken_site (folder_expression ''F'') None [] [] [] =
       (Threw TypeError, [search (folder_expression ''F'') None])"
  by code_simp

text \<open>
  A fetch that returns has issued a request, and the answer to its last request carries
  no cursor or an empty one; the next request of a fetch that goes on carries the cursor
  of the answer.
\<close>

lemma fetchPages_Returned_last:
  assumes "fetchPages n W e c fi ai lg = (Returned r, lg')"
  shows "\<exists>res. lg' \<noteq> [] \<and> execute W (last lg') = Inr res
    \<and> (next_cursor res = None \<or> next_cursor res = Some [])"
  using assms
proof (induction n arbitrary: c fi ai lg)
  case 0
  then show ?case by simp
next
  case (Suc n)
  from Suc.prems obtain result its where
    ex: "execute W (search e c) = Inr result"
    and conv: "map_convert (case resources result of None \<Rightarrow> [] | Some rs \<Rightarrow> rs) = Inr its"
    by (auto split: sum.splits)
  show ?case
  proof (cases "truthy (next_cursor result)")
    case False
    with ex conv Suc.prems have "lg' = lg @ [search e c]" by simp
    moreover from False have "next_cursor result = None \<or> next_cursor result = Some []"
      by (cases "next_cursor result") (simp_all add: truthy_def)
    ultimately show ?thesis using ex by simp
  next
    case True
    with ex conv Suc.prems
    have "fetchPages n W e (next_cursor result) (fi @ its) (ai @ its) (lg @ [search e c]) = (Returned r, lg')"
      by simp
    from Suc.IH [OF this] show ?thesis .
  qed
qed

section \<open>Failures\<close>

lemma fetchPages_failure:
  assumes "fetchPages n W e c fi ai lg = (r, lg')"
    and "\<forall>q \<in> set lg. \<forall>err. execute W q \<noteq> Inl err"
  shows "\<forall>q \<in> set lg'. \<forall>err. execute W q = Inl err \<longrightarrow> r = Threw err"
  using assms
proof (induction n arbitrary: c fi ai lg)
  case 0
  then show ?case by auto
next
  case (Suc n)
  show ?case
  proof (cases "execute W (search e c)")
    case (Inl err0)
    with Suc.prems show ?thesis by auto
  next
    case (Inr result)
    then have ok: "\<forall>q \<in> set (lg @ [search e c]). \<forall>err. execute W q \<noteq> Inl err"
      using Suc.prems(2) by auto
    show ?thesis
    proof (cases "map_convert (case resources result of None \<Rightarrow> [] | Some rs \<Rightarrow> rs)")
      case (Inl err0)
      with Inr Suc.prems(1) have "lg' = lg @ [search e c]" by simp
      with ok show ?thesis by blast
    next
      case conv: (Inr its)
      show ?thesis
      proof (cases "truthy (next_cursor result)")
        case True
        with Inr conv Suc.prems(1)
        have "fetchPages n W e (next_cursor result) (fi @ its) (ai @ its) (lg @ [search e c]) = (r, lg')"
          by simp
        from Suc.IH [OF this ok] show ?thesis .
      next
        case False
        with Inr conv Suc.prems(1) have "lg' = lg @ [search e c]" by simp
        with ok show ?thesis by blast
      qed
    qed
  qed
qed

lemma forFolders_failure:
  assumes "forFolders n W fs obj ai lg = (r, lg')"
    and "\<forall>q \<in> set lg. \<forall>err. execute W q \<noteq> Inl err"
  shows "\<forall>q \<in> set lg'. \<forall>err. execute W q = Inl err \<longrightarrow> r = Threw err"
  using assms
proof (induction fs arbitrary: obj ai lg)
  case Nil
  then show ?case by auto
next
  case (Cons f fs)
  obtain r1 lg1 where page: "fetchPages n W (folder_expression (name f)) None [] ai lg = (r1, lg1)"
    by (cases "fetchPages n W (folder_expression (name f)) None [] ai lg")
  from fetchPages_failure [OF page Cons.prems(2)]
  have fail1: "\<forall>q \<in> set lg1. \<forall>err. execute W q = Inl err \<longrightarrow> r1 = Threw err" .
  show ?case
  proof (cases r1)
    case Pending
    with page Cons.prems(1) have "r = Pending" "lg' = lg1" by simp_all
    with fail1 Pending show ?thesis by auto
  next
    case (Threw err1)
    with page Cons.prems(1) have "r = Threw err1" "lg' = lg1" by simp_all
    with fail1 Threw show ?thesis by auto
  next
    case (Returned pr)
    obtain fi ai1 where pr: "pr = (fi, ai1)" by (cases pr)
    from fail1 Returned have ok1: "\<forall>q \<in> set lg1. \<forall>err. execute W q \<noteq> Inl err" by auto
    from page Returned pr Cons.prems(1)
    have "forFolders n W fs (if length fi > 0 then obj_set obj (name f) fi else obj) ai1 lg1 = (r, lg')"
      by simp
    from Cons.IH [OF this ok1] show ?thesis .
  qed
qed

lemma tryBlock_failure:
  assumes "q \<in> set (snd (tryBlock n W))" and "execute W q = Inl err"
  shows "fst (tryBlock n W) = Threw err"
proof (cases "root_folders W")
  case (Inl e0)
  with assms(1) show ?thesis by (simp add: tryBlock_def)
next
  case (Inr fr)
  let ?fs = "case folders fr of None \<Rightarrow> [] | Some fs \<Rightarrow> fs"
  obtain r1 lg1 where loop: "forFolders n W ?fs [] [] [] = (r1, lg1)"
    by (cases "forFolders n W ?fs [] [] []")
  from forFolders_failure [OF loop]
  have fail1: "\<forall>q \<in> set lg1. \<forall>err. execute W q = Inl err \<longrightarrow> r1 = Threw err" by simp
  show ?thesis
  proof (cases r1)
    case Pending
    with Inr loop have "tryBlock n W = (Pending, lg1)" by (simp add: tryBlock_def)
    with fail1 Pending assms show ?thesis by auto
  next
    case (Threw err1)
    with Inr loop have "tryBlock n W = (Threw err1, lg1)" by (simp add: tryBlock_def)
    with fail1 Threw assms show ?thesis by auto
  next
    case (Returned pr)
    obtain obj ai where pr: "pr = (obj, ai)" by (cases pr)
    from fail1 Returned have ok1: "\<forall>q \<in> set lg1. \<forall>err. execute W q \<noteq> Inl err" by auto
    obtain r2 lg2 where root: "fetchPages n W root_expression None [] ai lg1 = (r2, lg2)"
      by (cases "fetchPages n W root_expression None [] ai lg1")
    from fetchPages_failure [OF root ok1]
    have fail2: "\<forall>q \<in> set lg2. \<forall>err. execute W q = Inl err \<longrightarrow> r2 = Threw err" .
    from Inr loop Returned pr root have snd: "snd (tryBlock n W) = lg2"
      by (cases r2) (auto simp: tryBlock_def split: prod.splits)
    with fail2 assms have r2: "r2 = Threw err" by auto
    with Inr loop Returned pr root show ?thesis by (simp add: tryBlock_def)
  qed
qed

lemma fetchAllImages_requests: "snd (fetchAllImages n W) = snd (tryBlock n W)"
  by (cases "tryBlock n W") (auto simp: fetchAllImages_def split: run.splits)

lemma fetchAllImages_Threw:
  "fst (tryBlock n W) = Threw e \<Longrightarrow>
   fst (fetchAllImages n W) =
     Some \<lparr>exit_code = 1, images_json = None,
       console_error = ErrorFetching e # (if mentions_api_key e then [CredentialsHelp] else [])\<rparr>"
  by (cases "tryBlock n W") (auto simp: fetchAllImages_def)

text \<open>The test of the \<open>catch\<close> block: the error has a message in which \<open>api_key\<close> occurs.\<close>

lemma mentions_api_key_iff:
  "mentions_api_key e \<longleftrightarrow> (\<exists>m. e = Rejected (Some m) \<and> sublist ''api_key'' m)"
proof (cases e)
  case TypeError
  then show ?thesis by (simp add: mentions_api_key_def)
next
  case (Rejected mo)
  show ?thesis
  proof (cases mo)
    case None
    with Rejected show ?thesis by (simp add: mentions_api_key_def)
  next
    case (Some m)
    have "sublist ''api_key'' m \<Longrightarrow> m \<noteq> []" by auto
    with Rejected Some show ?thesis
      by (auto simp: mentions_api_key_def str_includes_iff)
  qed
qed

text \<open>
  Claim C9. When the listing of the folders fails, or a search request that the run
  issues fails, the run ends with exit status 1 and does not write the file; the error
  stream receives the error, followed by the guidance on credentials exactly when the
  error has a message in which \<open>api_key\<close> occurs.
\<close>

theorem failed_request_aborts:
  assumes "root_folders W = Inl e \<or> (\<exists>q \<in> set (snd (fetchAllImages n W)). execute W q = Inl e)"
  shows "fst (fetchAllImages n W) =
     Some \<lparr>exit_code = 1, images_json = None,
       console_error =
         ErrorFetching e #
           (if \<exists>m. e = Rejected (Some m) \<and> sublist ''api_key'' m then [CredentialsHelp] else [])\<rparr>"
proof -
  have "fst (tryBlock n W) = Threw e"
  proof (cases "root_folders W")
    case (Inl e0)
    then have "tryBlock n W = (Threw e0, [])" by (simp add: tryBlock_def)
    with assms Inl show ?thesis by (auto simp: fetchAllImages_requests)
  next
    case (Inr fr)
    with assms obtain q where "q \<in> set (snd (tryBlock n W))" "execute W q = Inl e"
      by (auto simp: fetchAllImages_requests)
    then show ?thesis by (rule tryBlock_failure)
  qed
  from fetchAllImages_Threw [OF this] show ?thesis
    by (simp only: mentions_api_key_iff)
qed

theorem failed_request_aborts_witness:
  "root_folders no_credentials = Inl (Rejected (Some ''Must supply api_key''))
   \<and> fst (fetchAllImages 1 no_credentials) =
       Some \<lparr>exit_code = 1, images_json = None,
         console_error = [ErrorFetching (Rejected (Some ''Must supply api_key'')), CredentialsHelp]\<rparr>
   \<and> root_folders bad_key = Inl (Rejected (Some ''Invalid api_key 123''))
   \<and> fst (fetchAllImages 1 bad_key) =
       Some \<lparr>exit_code = 1, images_json = None,
         console_error = [ErrorFetching (Rejected (Some ''Invalid api_key 123'')), CredentialsHelp]\<rparr>
   \<and> search (folder_expression ''2024 April'') None \<in> set (snd (fetchAllImages 1 outage))
   \<and> execute outage (search (folder_expression ''2024 April'') None) =
       Inl (Rejected (Some ''Server error''))
   \<and> fst (fetchAllImages 1 outage) =
       Some \<lparr>exit_code = 1, images_json = None,
         console_error = [ErrorFetching (Rejected (Some ''Server error''))]\<rparr>"
proof -
  have a: "root_folders no_credentials = Inl (Rejected (Some ''Must supply api_key''))"
    by (simp add: no_credentials_def)
  have k: "sublist ''api_key'' ''Must supply api_key''"
    by (rule sublist_appendI [of "''api_key''" "''Must supply ''" "[]", simplified])
  have a': "root_folders bad_key = Inl (Rejected (Some ''Invalid api_key 123''))"
    by (simp add: bad_key_def)
  have k': "sublist ''api_key'' ''Invalid api_key 123''"
    by (rule sublist_appendI [of "''api_key''" "''Invalid ''" "'' 123''", simplified])
  have b: "search (folder_expression ''2024 April'') None \<in> set (snd (fetchAllImages 1 outage))"
    by code_simp
  have c: "execute outage (search (folder_expression ''2024 April'') None) =
       Inl (Rejected (Some ''Server error''))"
    by code_simp
  have "\<not> str_includes ''Server error'' ''api_key''"
    by code_simp
  then have n: "\<not> sublist ''api_key'' ''Server error''"
    unfolding str_includes_iff .
  from failed_request_aborts [of no_credentials "Rejected (Some ''Must supply api_key'')" 1] a k
  have "fst (fetchAllImages 1 no_credentials) =
       Some \<lparr>exit_code = 1, images_json = None,
         console_error = [ErrorFetching (Rejected (Some ''Must supply api_key'')), CredentialsHelp]\<rparr>"
    by simp
  moreover from failed_request_aborts [of bad_key "Rejected (Some ''Invalid api_key 123'')" 1] a' k'
  have "fst (fetchAllImages 1 bad_key) =
       Some \<lparr>exit_code = 1, images_json = None,
         console_error = [ErrorFetching (Rejected (Some ''Invalid api_key 123'')), CredentialsHelp]\<rparr>"
    by simp
  moreover from failed_request_aborts [of outage "Rejected (Some ''Server error'')" 1] b c n
  have "fst (fetchAllImages 1 outage) =
       Some \<lparr>exit_code = 1, images_json = None,
         console_error = [ErrorFetching (Rejected (Some ''Server error''))]\<rparr>"
    by auto
  ultimately show ?thesis using a a' b c by simp
qed

section \<open>The order of the albums\<close>

lemma mset_insert_sorted: "mset (insert_sorted cmp x ys) = add_mset x (mset ys)"
  by (induction ys) auto

lemma mset_js_sort: "mset (js_sort cmp xs) = mset xs"
  by (induction xs) (simp_all add: js_sort_def mset_insert_sorted)

lemma set_js_sort: "set (js_sort cmp xs) = set xs"
  using mset_js_sort [of cmp xs] by (metis set_mset_mset)

lemma sorted_insert_sorted:
  assumes total: "\<And>a b. 0 < cmp a b \<Longrightarrow> cmp b a \<le> 0"
    and trans: "\<And>a b c. cmp a b \<le> 0 \<Longrightarrow> cmp b c \<le> 0 \<Longrightarrow> cmp a c \<le> 0"
    and sorted: "sorted_wrt (\<lambda>a b. cmp a b \<le> 0) ys"
  shows "sorted_wrt (\<lambda>a b. cmp a b \<le> 0) (insert_sorted cmp x ys)"
  using sorted
proof (induction ys)
  case Nil
  show ?case by simp
next
  case (Cons y ys)
  show ?case
  proof (cases "cmp x y \<le> 0")
    case True
    with Cons.prems trans show ?thesis by auto
  next
    case False
    then have yx: "cmp y x \<le> 0" using total [of x y] by simp
    from Cons have "sorted_wrt (\<lambda>a b. cmp a b \<le> 0) (insert_sorted cmp x ys)" by simp
    moreover have "\<forall>z \<in> set (insert_sorted cmp x ys). cmp y z \<le> 0"
    proof
      fix z assume "z \<in> set (insert_sorted cmp x ys)"
      then have "z \<in># mset (insert_sorted cmp x ys)" by simp
      then have "z = x \<or> z \<in> set ys" by (simp add: mset_insert_sorted)
      with yx Cons.prems show "cmp y z \<le> 0" by auto
    qed
    ultimately show ?thesis using False by simp
  qed
qed

lemma sorted_js_sort:
  assumes "\<And>a b. 0 < cmp a b \<Longrightarrow> cmp b a \<le> 0"
    and "\<And>a b c. cmp a b \<le> 0 \<Longrightarrow> cmp b c \<le> 0 \<Longrightarrow> cmp a c \<le> 0"
  shows "sorted_wrt (\<lambda>a b. cmp a b \<le> 0) (js_sort cmp xs)"
proof (induction xs)
  case Nil
  show ?case by (simp add: js_sort_def)
next
  case (Cons x xs)
  have "js_sort cmp (x # xs) = insert_sorted cmp x (js_sort cmp xs)"
    by (simp add: js_sort_def)
  with sorted_insert_sorted [of cmp "js_sort cmp xs" x] assms Cons show ?case
    by simp
qed

lemma ordinal_compare_le: "ordinal_compare a b \<le> 0 \<longleftrightarrow> a \<le> b"
  by (auto simp: ordinal_compare_def)

lemma ordinal_compare_consistent:
  "0 < ordinal_compare a b \<Longrightarrow> ordinal_compare b a \<le> 0"
  "ordinal_compare a b \<le> 0 \<Longrightarrow> ordinal_compare b c \<le> 0 \<Longrightarrow> ordinal_compare a c \<le> 0"
  by (auto simp: ordinal_compare_def split: if_splits)

text \<open>
  Claim C6, amended. In a run that writes its file, the albums are in descending order of
  their titles under the comparison of the host, \<open>localeCompare\<close> with no option, provided
  that comparison is consistent (total and transitive). The comparison is the host's
  collation, which is not aware of numbers and need not be the ordinal one; where it
  orders the titles as ordinal comparison does, as on \<open>2023 April\<close>, \<open>2024 April\<close> and
  \<open>2022 April\<close>, the albums are in descending ordinal order.
\<close>

theorem albums_sorted_by_collation:
  assumes "fetchAllImages n W = (Some p, reqs)" and "images_json p = Some out"
    and total: "\<And>a b. 0 < localeCompare W a b \<Longrightarrow> localeCompare W b a \<le> 0"
    and trans: "\<And>a b c. localeCompare W a b \<le> 0 \<Longrightarrow> localeCompare W b c \<le> 0
          \<Longrightarrow> localeCompare W a c \<le> 0"
  shows "sorted_wrt (\<lambda>a b. localeCompare W (title b) (title a) \<le> 0) (albums out)"
proof -
  from fetchAllImages_written [OF assms(1,2)] have "tryBlock n W = (Returned out, reqs)" by simp
  from tryBlock_Returned [OF this] obtain obj where
    "albums out = js_sort (\<lambda>a b. localeCompare W (title b) (title a))
        (map (toAlbum (map_of albumCovers)) (object_entries obj))"
    by auto
  moreover have "sorted_wrt (\<lambda>a b. localeCompare W (title b) (title a) \<le> 0)
      (js_sort (\<lambda>a b. localeCompare W (title b) (title a)) xs)" for xs
    by (rule sorted_js_sort) (auto intro: total trans)
  ultimately show ?thesis by simp
qed

theorem albums_sorted_by_collation_witness:
  "map title (albums (the (images_json (the (fst (fetchAllImages 1 three_albums)))))) =
     [''2024 April'', ''2023 April'', ''2022 April'']
   \<and> sorted_wrt (\<lambda>a b. localeCompare three_albums (title b) (title a) \<le> 0)
       (albums (the (images_json (the (fst (fetchAllImages 1 three_albums))))))"
proof -
  define p where "p = the (fst (fetchAllImages 1 three_albums))"
  define out where "out = the (images_json p)"
  have run: "fetchAllImages 1 three_albums = (Some p, snd (fetchAllImages 1 three_albums))"
    unfolding p_def by code_simp
  have written: "images_json p = Some out"
    unfolding out_def p_def by code_simp
  have lc: "localeCompare three_albums = ordinal_compare"
    by (simp add: three_albums_def)
  have "sorted_wrt (\<lambda>a b. localeCompare three_albums (title b) (title a) \<le> 0) (albums out)"
    by (rule albums_sorted_by_collation [OF run written])
      (auto simp: lc dest: ordinal_compare_consistent)
  moreover have "map title (albums out) = [''2024 April'', ''2023 April'', ''2022 April'']"
    unfolding out_def p_def by code_simp
  ultimately show ?thesis unfolding out_def p_def by simp
qed

text \<open>
  Claim C6 as stated fails: on a host whose collation orders letters alphabetically
  whatever their case, the albums \<open>Aa\<close> and \<open>AZ\<close> are written in the order \<open>AZ\<close>, \<open>Aa\<close>,
  which is ascending in ordinal comparison.
\<close>

theorem albums_not_in_ordinal_order:
  "map title (albums (the (images_json (the (fst (fetchAllImages 1 mixed_case)))))) =
     [''AZ'', ''Aa'']
   \<and> ''AZ'' < ''Aa''
   \<and> \<not> sorted_wrt (\<lambda>a b. ordinal_compare (title b) (title a) \<le> 0)
       (albums (the (images_json (the (fst (fetchAllImages 1 mixed_case))))))"
  by code_simp

section \<open>Albums and folders\<close>

lemma mset_object_entries: "mset (object_entries obj) = mset obj"
  by (simp add: object_entries_def)

lemma set_object_entries: "set (object_entries obj) = set obj"
  using mset_object_entries [of obj] by (metis set_mset_mset)

lemma obj_set_proto: "obj_set obj ''__proto__'' v = obj"
  by (simp add: obj_set_def)

lemma obj_set_other:
  assumes "k \<noteq> ''__proto__''"
  shows "map_of (obj_set obj k v) = (map_of obj)(k \<mapsto> v)"
    and "distinct (map fst obj) \<Longrightarrow> distinct (map fst (obj_set obj k v))"
  using assms by (simp_all add: obj_set_def update_conv' distinct_update)

text \<open>
  What the loop over the folders leaves in \<open>albumsByFolder\<close>: the folders seen so far
  whose fetch returned items, but for one named \<open>__proto__\<close>.
\<close>

lemma albumsByFolder_invariant:
  assumes "list_all2 (\<lambda>f s. F (name f) = Returned s) fs seqs"
    and "distinct (map fst obj)"
    and "\<And>k v. map_of obj k = Some v \<longleftrightarrow>
          (k \<in> P \<and> k \<noteq> ''__proto__'' \<and> v \<noteq> [] \<and> F k = Returned v)"
  defines "obj' \<equiv> fold (\<lambda>(f, s) ob. if s \<noteq> [] then obj_set ob (name f) s else ob) (zip fs seqs) obj"
  shows "distinct (map fst obj') \<and>
    (\<forall>k v. map_of obj' k = Some v \<longleftrightarrow>
       (k \<in> P \<union> name ` set fs \<and> k \<noteq> ''__proto__'' \<and> v \<noteq> [] \<and> F k = Returned v))"
  unfolding obj'_def using assms(1-3)
proof (induction fs seqs arbitrary: obj P rule: list_all2_induct)
  case Nil
  then show ?case by simp
next
  case (Cons f fs s seqs)
  let ?obj1 = "if s \<noteq> [] then obj_set obj (name f) s else obj"
  have d1: "distinct (map fst ?obj1)"
  proof (cases "name f = ''__proto__''")
    case True
    with Cons.prems(1) show ?thesis by (simp add: obj_set_proto)
  next
    case False
    with Cons.prems(1) show ?thesis by (simp add: obj_set_other)
  qed
  have m1: "map_of ?obj1 k = Some v \<longleftrightarrow>
        (k \<in> insert (name f) P \<and> k \<noteq> ''__proto__'' \<and> v \<noteq> [] \<and> F k = Returned v)" for k v
  proof (cases "s \<noteq> [] \<and> name f \<noteq> ''__proto__''")
    case True
    then have "map_of ?obj1 = (map_of obj)(name f \<mapsto> s)" by (simp add: obj_set_other)
    with True Cons.hyps(1) Cons.prems(2) [of k v] show ?thesis by auto
  next
    case False
    then have "?obj1 = obj" by (auto simp: obj_set_proto)
    with False Cons.hyps(1) Cons.prems(2) [of k v] show ?thesis by auto
  qed
  from Cons.IH [of ?obj1 "insert (name f) P", OF d1 m1]
  show ?case by simp
qed

lemma albums_of_object:
  fixes cmp covers
  assumes "distinct (map fst obj)"
  defines "as \<equiv> js_sort cmp (map (toAlbum covers) (object_entries obj))"
  shows "distinct (map folder as)"
    and "set as = toAlbum covers ` set obj"
proof -
  have "mset (map folder as) = mset (map fst obj)"
  proof -
    have "mset (map folder as) = image_mset folder (mset as)" by simp
    also have "mset as = image_mset (toAlbum covers) (mset obj)"
      by (simp add: as_def mset_js_sort mset_object_entries)
    also have "image_mset folder (image_mset (toAlbum covers) (mset obj)) = image_mset fst (mset obj)"
      by (simp add: image_mset.compositionality comp_def toAlbum_def Let_def split_beta)
    finally show ?thesis by simp
  qed
  with assms(1) show "distinct (map folder as)"
    by (metis mset_eq_imp_distinct_iff)
  show "set as = toAlbum covers ` set obj"
    by (simp add: as_def set_js_sort set_object_entries)
qed

text \<open>
  The albums of a run that writes its file: one for each listed folder whose fetch returned
  items, with those items, but for a folder named \<open>__proto__\<close>; none for an empty folder,
  and none that is not a listed folder, so that the root gets none.
\<close>

lemma albums_match_folders:
  assumes "fetchAllImages n W = (Some p, reqs)" and "images_json p = Some out"
  shows "\<exists>fr. root_folders W = Inr fr
    \<and> distinct (map folder (albums out))
    \<and> (\<forall>a. a \<in> set (albums out) \<longleftrightarrow>
          (folder a \<in> name ` set (case folders fr of None \<Rightarrow> [] | Some fs \<Rightarrow> fs)
           \<and> folder a \<noteq> ''__proto__'' \<and> images a \<noteq> []
           \<and> fetchFolder n W (folder_expression (folder a)) = Returned (images a)
           \<and> a = toAlbum (map_of albumCovers) (folder a, images a)))"
proof -
  from fetchAllImages_written [OF assms] have "tryBlock n W = (Returned out, reqs)" by simp
  from tryBlock_Returned [OF this] obtain fr obj ai lg where
    fr: "root_folders W = Inr fr"
    and loop: "forFolders n W (case folders fr of None \<Rightarrow> [] | Some fs \<Rightarrow> fs) [] [] [] = (Returned (obj, ai), lg)"
    and out: "albums out = js_sort (\<lambda>a b. localeCompare W (title b) (title a))
        (map (toAlbum (map_of albumCovers)) (object_entries obj))"
    by auto
  let ?fs = "case folders fr of None \<Rightarrow> [] | Some fs \<Rightarrow> fs"
  let ?F = "\<lambda>k. fetchFolder n W (folder_expression k)"
  from forFolders_Returned [OF loop] obtain seqs where
    seqs: "list_all2 (\<lambda>f s. ?F (name f) = Returned s) ?fs seqs"
    and obj: "obj = fold (\<lambda>(f, s) ob. if s \<noteq> [] then obj_set ob (name f) s else ob) (zip ?fs seqs) []"
    by blast
  from albumsByFolder_invariant [of ?F ?fs seqs "[]" "{}", OF seqs] obj
  have dist: "distinct (map fst obj)"
    and keys: "\<And>k v. map_of obj k = Some v \<longleftrightarrow>
        (k \<in> name ` set ?fs \<and> k \<noteq> ''__proto__'' \<and> v \<noteq> [] \<and> ?F k = Returned v)"
    by simp_all
  from albums_of_object [OF dist] out
  have d: "distinct (map folder (albums out))"
    and s: "set (albums out) = toAlbum (map_of albumCovers) ` set obj"
    by simp_all
  have "a \<in> set (albums out) \<longleftrightarrow>
          (folder a \<in> name ` set ?fs \<and> folder a \<noteq> ''__proto__'' \<and> images a \<noteq> []
           \<and> ?F (folder a) = Returned (images a)
           \<and> a = toAlbum (map_of albumCovers) (folder a, images a))" for a
  proof
    assume "a \<in> set (albums out)"
    with s obtain k v where kv: "(k, v) \<in> set obj" and a: "a = toAlbum (map_of albumCovers) (k, v)"
      by auto
    from kv dist have "map_of obj k = Some v" by simp
    with keys [of k v] a show "folder a \<in> name ` set ?fs \<and> folder a \<noteq> ''__proto__'' \<and> images a \<noteq> []
           \<and> ?F (folder a) = Returned (images a)
           \<and> a = toAlbum (map_of albumCovers) (folder a, images a)"
      by (simp add: toAlbum_fields)
  next
    assume r: "folder a \<in> name ` set ?fs \<and> folder a \<noteq> ''__proto__'' \<and> images a \<noteq> []
           \<and> ?F (folder a) = Returned (images a)
           \<and> a = toAlbum (map_of albumCovers) (folder a, images a)"
    with keys [of "folder a" "images a"] have "map_of obj (folder a) = Some (images a)" by simp
    then have "(folder a, images a) \<in> set obj" by (rule map_of_SomeD)
    with s r show "a \<in> set (albums out)" by (metis imageI)
  qed
  with fr d show ?thesis by blast
qed

text \<open>
  Claim C7 fails on the script for a folder named \<open>__proto__\<close>: its fetch returns one
  item, which is counted and shown in the carousel, and the run writes no album.
\<close>

theorem proto_folder_gets_no_album:
  "fetchFolder 1 proto_site (folder_expression ''__proto__'') = Returned [photo_item]
   \<and> fst (fetchAllImages 1 proto_site) =
       Some \<lparr>exit_code = 0,
         images_json = Some \<lparr>cloudName = ''demo'', lastUpdated = ''2025-01-01T00:00:00.000Z'',
           totalImages = 1, carouselImages = [photo_item], albums = []\<rparr>,
         console_error = []\<rparr>"
  by code_simp

text \<open>The example of the title of a folder: \<open>2024-sol_april\<close>.\<close>

lemma formatFolderName_example: "formatFolderName ''2024-sol_april'' = ''2024 Sol April''"
  by code_simp

end
